theory Spec2Isabelle
  imports Main "HOL-Library.Sublist"
begin

section \<open>Go standard library functions used by the squashfs package\<close>

text \<open>
  The package calls a handful of functions of Go's \<^verbatim>\<open>strings\<close> and \<^verbatim>\<open>path\<close>
  packages. They are modelled on byte strings (\<^typ>\<open>string\<close>), following the
  behaviour documented for them.
\<close>

text \<open>\<^verbatim>\<open>strings.HasPrefix(s, prefix)\<close>:
  \<^verbatim>\<open>len(s) >= len(prefix) && s[0:len(prefix)] == prefix\<close>.\<close>

definition strings_HasPrefix :: "string \<Rightarrow> string \<Rightarrow> bool" where
  "strings_HasPrefix s pre = (length pre \<le> length s \<and> take (length pre) s = pre)"

text \<open>\<^verbatim>\<open>strings.Split(s, sep)\<close> for a one-byte separator: the pieces between the
  separators; an input without separator (also the empty one) gives one piece.\<close>

fun strings_Split :: "string \<Rightarrow> char \<Rightarrow> string list" where
  "strings_Split [] sep = [[]]"
| "strings_Split (x # xs) sep =
     (if x = sep then [] # strings_Split xs sep
      else (case strings_Split xs sep of
              [] \<Rightarrow> [[x]]
            | y # ys \<Rightarrow> (x # y) # ys))"

text \<open>\<^verbatim>\<open>strings.Join(elems, sep)\<close>.\<close>

fun strings_Join :: "string list \<Rightarrow> string \<Rightarrow> string" where
  "strings_Join [] sep = []"
| "strings_Join [x] sep = x"
| "strings_Join (x # y # ys) sep = x @ sep @ strings_Join (y # ys) sep"

text \<open>\<^verbatim>\<open>strings.Replace(s, old, new, n)\<close> for one-byte \<open>old\<close> and \<open>new\<close> and
  \<open>n \<ge> 0\<close>: the first \<open>n\<close> occurrences are replaced.\<close>

fun strings_Replace :: "string \<Rightarrow> char \<Rightarrow> char \<Rightarrow> nat \<Rightarrow> string" where
  "strings_Replace [] old new n = []"
| "strings_Replace (x # xs) old new n =
     (if n = 0 then x # xs
      else if x = old then new # strings_Replace xs old new (n - 1)
      else x # strings_Replace xs old new n)"

text \<open>\<^verbatim>\<open>path.Clean\<close>: the path is cut at its slashes and the elements are
  processed from left to right. Empty elements and \<open>.\<close> are dropped; \<open>..\<close>
  removes the element before it when there is one that is not itself \<open>..\<close>,
  is dropped at the top of a rooted path, and is kept at the top of a relative
  path. The stack \<open>out\<close> holds the elements kept so far, the last one first.\<close>

fun clean_elems :: "bool \<Rightarrow> string list \<Rightarrow> string list \<Rightarrow> string list" where
  "clean_elems rooted out [] = out"
| "clean_elems rooted out (c # cs) =
     (if c = [] \<or> c = ''.'' then clean_elems rooted out cs
      else if c = ''..'' then
        (if out \<noteq> [] \<and> hd out \<noteq> ''..'' then clean_elems rooted (tl out) cs
         else if \<not> rooted then clean_elems rooted (''..'' # out) cs
         else clean_elems rooted out cs)
      else clean_elems rooted (c # out) cs)"

definition path_Clean :: "string \<Rightarrow> string" where
  "path_Clean p =
     (if p = [] then ''.''
      else
        let rooted = (hd p = CHR ''/'');
            out = rev (clean_elems rooted [] (strings_Split p (CHR ''/'')))
        in if rooted then CHR ''/'' # strings_Join out ''/''
           else if out = [] then ''.''
           else strings_Join out ''/'')"

text \<open>\<^verbatim>\<open>path.Split\<close> cuts after the last slash; \<^verbatim>\<open>path.Dir\<close> cleans the
  first half.\<close>

definition path_Split :: "string \<Rightarrow> string \<times> string" where
  "path_Split p =
     (rev (dropWhile (\<lambda>c. c \<noteq> CHR ''/'') (rev p)),
      rev (takeWhile (\<lambda>c. c \<noteq> CHR ''/'') (rev p)))"

definition path_Dir :: "string \<Rightarrow> string" where
  "path_Dir p = path_Clean (fst (path_Split p))"

text \<open>\<^verbatim>\<open>path.Base\<close>: trailing slashes are stripped, then everything up to the
  last slash; the empty path gives \<open>.\<close>, a path of slashes only gives \<open>/\<close>.\<close>

definition path_Base :: "string \<Rightarrow> string" where
  "path_Base p =
     (if p = [] then ''.''
      else
        let q = rev (dropWhile (\<lambda>c. c = CHR ''/'') (rev p));
            r = snd (path_Split q)
        in if r = [] then ''/'' else r)"

text \<open>\<^verbatim>\<open>path.Join\<close>: empty leading elements are skipped, the rest is joined
  with slashes and cleaned; when all elements are empty the result is empty.\<close>

definition path_Join :: "string list \<Rightarrow> string" where
  "path_Join elems =
     (if concat elems = [] then []
      else path_Clean (strings_Join (dropWhile (\<lambda>e. e = []) elems) ''/''))"

definition path_IsAbs :: "string \<Rightarrow> bool" where
  "path_IsAbs p = (p \<noteq> [] \<and> hd p = CHR ''/'')"

section \<open>ExcludePaths\<close>

text \<open>The struct \<^verbatim>\<open>ExcludePaths\<close>: \<^verbatim>\<open>exclude map[string]bool\<close> and
  \<^verbatim>\<open>include []string\<close> (the field is named \<open>include_list\<close> here, \<open>include\<close>
  being a keyword).\<close>

record ExcludePaths =
  exclude :: "string \<rightharpoonup> bool"
  include_list :: "string list"

definition NewExcludePaths :: ExcludePaths where
  "NewExcludePaths = \<lparr>exclude = Map.empty, include_list = []\<rparr>"

text \<open>\<^verbatim>\<open>AddExclude\<close>: the loop over \<^verbatim>\<open>eps.include\<close> returns from the method at the
  first included path that has \<open>p\<close> as a string prefix; \<open>has_prefixed_include\<close>
  tells whether it does.\<close>

fun has_prefixed_include :: "string list \<Rightarrow> string \<Rightarrow> bool" where
  "has_prefixed_include [] p = False"
| "has_prefixed_include (inc # incs) p =
     (if strings_HasPrefix inc p then True else has_prefixed_include incs p)"

definition AddExclude :: "ExcludePaths \<Rightarrow> string \<Rightarrow> ExcludePaths" where
  "AddExclude eps p =
     (if has_prefixed_include (include_list eps) p then eps
      else eps\<lparr>exclude := (exclude eps)(p \<mapsto> True)\<rparr>)"

text \<open>\<^verbatim>\<open>AddInclude\<close>: the \<^verbatim>\<open>for\<close> loop deletes \<open>p\<close> and its parents from the
  exclude map until \<open>p\<close> is \<open>/\<close>. For a path that never reaches \<open>/\<close> (a relative
  one ends in \<open>.\<close>, whose \<^verbatim>\<open>path.Dir\<close> is \<open>.\<close> again) the loop does not end:
  the result is \<open>None\<close>.\<close>

partial_function (option) remove_parents ::
  "(string \<rightharpoonup> bool) \<Rightarrow> string \<Rightarrow> (string \<rightharpoonup> bool) option" where
  "remove_parents ex p =
     (if p = ''/'' then Some ex
      else remove_parents (ex(p := None)) (path_Dir p))"

definition AddInclude :: "ExcludePaths \<Rightarrow> string \<Rightarrow> bool \<Rightarrow> ExcludePaths option" where
  "AddInclude eps orig isDir =
     (case remove_parents (exclude eps) (if \<not> isDir then path_Dir orig else orig) of
        None \<Rightarrow> None
      | Some ex \<Rightarrow> Some \<lparr>exclude = ex, include_list = include_list eps @ [orig]\<rparr>)"

text \<open>A sequence of calls on one \<^verbatim>\<open>ExcludePaths\<close>.\<close>

datatype eps_call = CallExclude string | CallInclude string bool

fun call_path :: "eps_call \<Rightarrow> string" where
  "call_path (CallExclude p) = p"
| "call_path (CallInclude p isDir) = p"

fun run_call :: "ExcludePaths \<Rightarrow> eps_call \<Rightarrow> ExcludePaths option" where
  "run_call eps (CallExclude p) = Some (AddExclude eps p)"
| "run_call eps (CallInclude p isDir) = AddInclude eps p isDir"

fun run_calls :: "ExcludePaths \<Rightarrow> eps_call list \<Rightarrow> ExcludePaths option" where
  "run_calls eps [] = Some eps"
| "run_calls eps (c # cs) =
     (case run_call eps c of None \<Rightarrow> None | Some eps' \<Rightarrow> run_calls eps' cs)"


section \<open>Directory hierarchy\<close>

text \<open>The elements of a path, and the relation "\<open>p\<close> is \<open>q\<close> or a directory above
  \<open>q\<close>": both paths are rooted or both are not, and the elements of \<open>p\<close> are the
  first elements of \<open>q\<close>. This is the prefix relation of the directory hierarchy,
  as opposed to the prefix relation on strings that \<^verbatim>\<open>strings.HasPrefix\<close> decides.\<close>

definition path_elems :: "string \<Rightarrow> string list" where
  "path_elems p = filter (\<lambda>e. e \<noteq> []) (strings_Split p (CHR ''/''))"

definition dir_prefix :: "string \<Rightarrow> string \<Rightarrow> bool" where
  "dir_prefix p q = (path_IsAbs p = path_IsAbs q \<and> prefix (path_elems p) (path_elems q))"

definition strict_ancestor :: "string \<Rightarrow> string \<Rightarrow> bool" where
  "strict_ancestor p q = (dir_prefix p q \<and> path_elems p \<noteq> path_elems q)"

text \<open>An absolute, normalized path: rooted and left unchanged by \<^verbatim>\<open>path.Clean\<close>.\<close>

definition is_clean_abs :: "string \<Rightarrow> bool" where
  "is_clean_abs p = (path_IsAbs p \<and> path_Clean p = p)"

text \<open>Such a path is \<open>/\<close> or \<open>/c\<^sub>1/\<dots>/c\<^sub>n\<close> for elements \<open>c\<^sub>i\<close> that are not empty,
  hold no slash and are neither \<open>.\<close> nor \<open>..\<close>.\<close>

definition good_elem :: "string \<Rightarrow> bool" where
  "good_elem c = (c \<noteq> [] \<and> CHR ''/'' \<notin> set c \<and> c \<noteq> ''.'' \<and> c \<noteq> ''..'')"

definition slashed :: "string list \<Rightarrow> string" where
  "slashed cs = concat (map ((#) CHR ''/'') cs)"

definition abs_path :: "string list \<Rightarrow> string" where
  "abs_path cs = (if cs = [] then ''/'' else slashed cs)"

text \<open>The paths that the loop of \<^verbatim>\<open>AddInclude\<close> deletes when it starts at
  \<open>abs_path cs\<close>: the path itself and every directory above it, except \<open>/\<close>.\<close>

definition parent_paths :: "string list \<Rightarrow> string set" where
  "parent_paths cs = set (map abs_path (tl (prefixes cs)))"

text \<open>The arguments of the \<^verbatim>\<open>AddInclude\<close> calls of a sequence, in order.\<close>

fun call_includes :: "eps_call list \<Rightarrow> (string \<times> bool) list" where
  "call_includes [] = []"
| "call_includes (CallExclude p # cs) = call_includes cs"
| "call_includes (CallInclude p isDir # cs) = (p, isDir) # call_includes cs"

text \<open>The invariant of an \<^verbatim>\<open>ExcludePaths\<close> that was built by calls on absolute,
  normalized paths, \<open>H\<close> being the \<^verbatim>\<open>AddInclude\<close> calls made so far.\<close>

definition eps_inv :: "ExcludePaths \<Rightarrow> (string \<times> bool) list \<Rightarrow> bool" where
  "eps_inv eps H =
     ((\<forall>e. e \<in> dom (exclude eps) \<longrightarrow> is_clean_abs e) \<and>
      include_list eps = map fst H \<and>
      (\<forall>inc d. (inc, d) \<in> set H \<longrightarrow> is_clean_abs inc) \<and>
      (\<forall>e inc d. e \<in> dom (exclude eps) \<longrightarrow> (inc, d) \<in> set H \<longrightarrow>
         dir_prefix e inc \<longrightarrow> e = ''/'' \<or> (e = inc \<and> \<not> d)))"

section \<open>Errors\<close>

text \<open>The error numbers of system calls that matter here, and Go errors: a
  system call's error, a message (\<^verbatim>\<open>errors.Errorf\<close>), an error wrapped with a
  message (\<^verbatim>\<open>errors.Wrapf\<close>), and an error of one of the libraries. \<open>Panic\<close> is
  not an error that a function returns: it stands for a panic, which ends the
  call without a result.\<close>

datatype errno = EPERM | EACCES | ENOENT | ENOTDIR | EEXIST | EROFS | ENOSPC | EIO

datatype error =
    Errno errno
  | Errorf string
  | Wrapf error string
  | LibError string
  | Panic string

section \<open>Rendering the exclude list\<close>

text \<open>\<^verbatim>\<open>bytes.Buffer.WriteString\<close> appends to the buffer; the error it returns
  is always nil.\<close>

definition Buffer_WriteString :: "string \<Rightarrow> string \<Rightarrow> string \<times> error option" where
  "Buffer_WriteString buf s = (buf @ s, None)"

text \<open>\<^verbatim>\<open>String\<close>: the loop \<^verbatim>\<open>for p := range eps.exclude\<close> visits the keys of the
  map in an order that Go leaves open; \<open>ks\<close> is the order of one run.\<close>

fun write_paths :: "string \<Rightarrow> string list \<Rightarrow> error + string" where
  "write_paths buf [] = Inr buf"
| "write_paths buf (p # ps) =
     (case Buffer_WriteString buf p of
        (buf1, Some err) \<Rightarrow> Inl err
      | (buf1, None) \<Rightarrow>
          (case Buffer_WriteString buf1 [CHR 0x0A] of
             (buf2, Some err) \<Rightarrow> Inl err
           | (buf2, None) \<Rightarrow> write_paths buf2 ps))"

definition String_eps :: "string list \<Rightarrow> error + string" where
  "String_eps ks =
     (case write_paths [] ks of
        Inl err \<Rightarrow> Inl err
      | Inr buf \<Rightarrow>
          (case Buffer_WriteString buf [CHR 0x0A] of
             (buf1, Some err) \<Rightarrow> Inl err
           | (buf1, None) \<Rightarrow> Inr buf1))"

text \<open>The orders that \<^verbatim>\<open>range\<close> can take on the map \<open>m\<close>: every key is visited
  once.\<close>

definition range_order :: "(string \<rightharpoonup> bool) \<Rightarrow> string list \<Rightarrow> bool" where
  "range_order m ks = (distinct ks \<and> set ks = dom m)"

text \<open>The lines of the rendered text, as the reader of the exclude file of
  \<^verbatim>\<open>mksquashfs\<close> sees them: the text is cut at its newlines; the last two pieces
  are the end of the last line and the blank line that ends the list.\<close>

definition rendered_lines :: "string \<Rightarrow> string list" where
  "rendered_lines s = butlast (butlast (strings_Split s (CHR 0x0A)))"

section \<open>The world outside the package\<close>

text \<open>
  The functions below call the operating system, external tools and the
  \<^verbatim>\<open>umoci\<close>, \<^verbatim>\<open>go-mtree\<close> and \<^verbatim>\<open>stacker/oci\<close> libraries. The world they act on is
  a record: the files that are not directories, the directories, the bundle
  meta stored in the bundle, the blobs of the content store, and the list of
  the calls made that can change the world, in order.
\<close>

datatype node = CharDevice nat nat | RegularFile string

record Descriptor =
  MediaType :: string
  Digest :: string
  Size :: nat

record DescriptorPath =
  Walk :: "Descriptor list"

record Meta =
  Version :: string
  From :: DescriptorPath

datatype call =
    EvMknod string
  | EvCreate string
  | EvTempFile string string
  | EvWriteString string string
  | EvRemove string
  | EvExec "string list"
  | EvAddBlobNoCompression string string
  | EvGenerateBundleManifest string string
  | EvWriteBundleMeta string
  | EvMkdirAll string

record world =
  files :: "string \<rightharpoonup> node"
  dirs :: "string set"
  bundle_meta :: Meta
  blobs :: "(Descriptor \<times> string) list"
  trace :: "call list"

text \<open>The entries of the diff: \<^verbatim>\<open>mtree.InodeDelta\<close> with its type, its path
  and what \<^verbatim>\<open>Old().IsDir()\<close> and \<^verbatim>\<open>New().IsDir()\<close> give.\<close>

datatype DifferenceType = Modified | Extra | Missing | Same

record InodeDelta =
  diff_Type :: DifferenceType
  diff_Path :: string
  Old_IsDir :: bool
  New_IsDir :: bool

text \<open>What the world answers: the outcome of every call whose result the
  package does not decide itself.\<close>

record ext =
  ReadBundleMeta_err :: "error option"
  Open_err :: "string \<Rightarrow> errno option"
  ParseSpec_err :: "error option"
  Walk_err :: "string \<Rightarrow> error option"
  CompareSame_res :: "error + InodeDelta list"
  FilterDeltas :: "InodeDelta list \<Rightarrow> InodeDelta list"
  Mknod_err :: "string \<Rightarrow> errno option"
  Create_err :: "string \<Rightarrow> errno option"
  map_keys :: "(string \<rightharpoonup> bool) \<Rightarrow> string list"
  TempFile_res :: "string \<Rightarrow> string \<Rightarrow> errno + string"
  WriteString_err :: "string \<Rightarrow> errno option"
  Run_err :: "string list \<Rightarrow> error option"
  squashfs_image :: "string list \<Rightarrow> string"
  AddBlob_res :: "string \<Rightarrow> string \<Rightarrow> error + Descriptor"
  GenerateBundleManifest_err :: "string \<Rightarrow> error option"
  manifest_text :: string
  WriteBundleMeta_err :: "error option"
  MkdirAll_err :: "string \<Rightarrow> errno option"
  Getenv :: "string \<Rightarrow> string"
  Access_X_OK :: "string \<Rightarrow> bool"

definition log :: "call \<Rightarrow> world \<Rightarrow> world" where
  "log c w = w\<lparr>trace := trace w @ [c]\<rparr>"

text \<open>\<^verbatim>\<open>os.IsNotExist\<close> and \<^verbatim>\<open>os.IsPermission\<close> on an error of a system call.\<close>

definition os_IsNotExist :: "errno \<Rightarrow> bool" where
  "os_IsNotExist e = (e = ENOENT)"

definition os_IsPermission :: "errno \<Rightarrow> bool" where
  "os_IsPermission e = (e = EACCES \<or> e = EPERM)"

text \<open>\<^verbatim>\<open>unix.Mknod(p, unix.S_IFCHR, int(unix.Mkdev(0, 0)))\<close>: on success there is a
  character device with numbers 0/0 at \<open>p\<close>.\<close>

definition unix_Mknod :: "ext \<Rightarrow> string \<Rightarrow> world \<Rightarrow> errno option \<times> world" where
  "unix_Mknod x p w =
     (case Mknod_err x p of
        Some e \<Rightarrow> (Some e, log (EvMknod p) w)
      | None \<Rightarrow> (None, (log (EvMknod p) w)\<lparr>files := (files w)(p \<mapsto> CharDevice 0 0)\<rparr>))"

text \<open>\<^verbatim>\<open>os.Create\<close> opens with \<^verbatim>\<open>O_RDWR|O_CREATE|O_TRUNC\<close>: a missing file is
  created empty, a regular file is truncated, any other node stays what it is.\<close>

definition os_Create :: "ext \<Rightarrow> string \<Rightarrow> world \<Rightarrow> errno option \<times> world" where
  "os_Create x p w =
     (case Create_err x p of
        Some e \<Rightarrow> (Some e, log (EvCreate p) w)
      | None \<Rightarrow>
          (None, (log (EvCreate p) w)\<lparr>files :=
             (case files w p of
                Some (CharDevice major minor) \<Rightarrow> files w
              | _ \<Rightarrow> (files w)(p \<mapsto> RegularFile []))\<rparr>))"

text \<open>\<^verbatim>\<open>os.Remove\<close>, its error ignored as all its callers here do.\<close>

definition os_Remove :: "string \<Rightarrow> world \<Rightarrow> world" where
  "os_Remove p w = (log (EvRemove p) w)\<lparr>files := (files w)(p := None)\<rparr>"

text \<open>\<^verbatim>\<open>os.Open\<close> for reading: the contents of the file, or an error.\<close>

definition os_Open :: "ext \<Rightarrow> string \<Rightarrow> world \<Rightarrow> errno + node" where
  "os_Open x p w =
     (case files w p of
        None \<Rightarrow> Inl ENOENT
      | Some n \<Rightarrow> (case Open_err x p of Some e \<Rightarrow> Inl e | None \<Rightarrow> Inr n))"

text \<open>\<^verbatim>\<open>ioutil.TempFile(dir, pattern)\<close> creates an empty file and gives its name.\<close>

definition ioutil_TempFile :: "ext \<Rightarrow> string \<Rightarrow> string \<Rightarrow> world \<Rightarrow> (errno + string) \<times> world" where
  "ioutil_TempFile x dir pattern w =
     (case TempFile_res x dir pattern of
        Inl e \<Rightarrow> (Inl e, log (EvTempFile dir pattern) w)
      | Inr f \<Rightarrow> (Inr f, (log (EvTempFile dir pattern) w)\<lparr>files := (files w)(f \<mapsto> RegularFile [])\<rparr>))"

text \<open>\<^verbatim>\<open>File.WriteString\<close> on a file that was just created.\<close>

definition File_WriteString :: "ext \<Rightarrow> string \<Rightarrow> string \<Rightarrow> world \<Rightarrow> errno option \<times> world" where
  "File_WriteString x f s w =
     (case WriteString_err x f of
        Some e \<Rightarrow> (Some e, log (EvWriteString f s) w)
      | None \<Rightarrow> (None, (log (EvWriteString f s) w)\<lparr>files := (files w)(f \<mapsto> RegularFile s)\<rparr>))"

text \<open>\<^verbatim>\<open>exec.Command(...).Run()\<close>.\<close>

definition cmd_Run :: "ext \<Rightarrow> string list \<Rightarrow> world \<Rightarrow> error option \<times> world" where
  "cmd_Run x argv w = (Run_err x argv, log (EvExec argv) w)"

text \<open>\<^verbatim>\<open>umoci.ReadBundleMeta\<close> and \<^verbatim>\<open>umoci.WriteBundleMeta\<close>.\<close>

definition ReadBundleMeta :: "ext \<Rightarrow> string \<Rightarrow> world \<Rightarrow> error + Meta" where
  "ReadBundleMeta x bundlepath w =
     (case ReadBundleMeta_err x of Some e \<Rightarrow> Inl e | None \<Rightarrow> Inr (bundle_meta w))"

definition WriteBundleMeta :: "ext \<Rightarrow> string \<Rightarrow> Meta \<Rightarrow> world \<Rightarrow> error option \<times> world" where
  "WriteBundleMeta x bundlepath meta w =
     (case WriteBundleMeta_err x of
        Some e \<Rightarrow> (Some e, log (EvWriteBundleMeta bundlepath) w)
      | None \<Rightarrow> (None, (log (EvWriteBundleMeta bundlepath) w)\<lparr>bundle_meta := meta\<rparr>))"

text \<open>\<^verbatim>\<open>casext.DescriptorPath.Descriptor\<close>: the last descriptor of the walk; on
  an empty walk it panics.\<close>

definition DescriptorPath_Descriptor :: "DescriptorPath \<Rightarrow> error + Descriptor" where
  "DescriptorPath_Descriptor dp =
     (if Walk dp = [] then Inl (Panic ''empty DescriptorPath'') else Inr (last (Walk dp)))"

text \<open>Modelled from the spec: \<^verbatim>\<open>stackeroci.AddBlobNoCompression\<close>, of the
  repository's \<^verbatim>\<open>oci\<close> package, whose source is not at hand. It streams the blob
  into the content store and returns the descriptor of the blob.\<close>

definition AddBlobNoCompression ::
  "ext \<Rightarrow> string \<Rightarrow> string \<Rightarrow> world \<Rightarrow> (error + Descriptor) \<times> world" where
  "AddBlobNoCompression x name blob w =
     (case AddBlob_res x name blob of
        Inl e \<Rightarrow> (Inl e, log (EvAddBlobNoCompression name blob) w)
      | Inr desc \<Rightarrow>
          (Inr desc, (log (EvAddBlobNoCompression name blob) w)\<lparr>blobs := blobs w @ [(desc, blob)]\<rparr>))"

text \<open>\<^verbatim>\<open>umoci.GenerateBundleManifest(mtreeName, bundlePath, fsEval)\<close> writes the
  manifest of the rootfs to the file \<open>mtreeName\<close> with the suffix \<^verbatim>\<open>.mtree\<close> at the
  root of the bundle: the library appends the suffix itself. The manifest that
  \<^verbatim>\<open>GenerateSquashfsLayer\<close> opens first was written by this function for the
  name without suffix, and is read at that name with \<^verbatim>\<open>.mtree\<close> appended.\<close>

definition GenerateBundleManifest ::
  "ext \<Rightarrow> string \<Rightarrow> string \<Rightarrow> world \<Rightarrow> error option \<times> world" where
  "GenerateBundleManifest x name bundlepath w =
     (case GenerateBundleManifest_err x name of
        Some e \<Rightarrow> (Some e, log (EvGenerateBundleManifest name bundlepath) w)
      | None \<Rightarrow>
          (None, (log (EvGenerateBundleManifest name bundlepath) w)\<lparr>files :=
             (files w)(path_Join [bundlepath, name @ ''.mtree''] \<mapsto>
                         RegularFile (manifest_text x))\<rparr>))"

text \<open>\<^verbatim>\<open>os.MkdirAll\<close> (of the directories it creates, only the last is recorded).\<close>

definition os_MkdirAll :: "ext \<Rightarrow> string \<Rightarrow> world \<Rightarrow> errno option \<times> world" where
  "os_MkdirAll x p w =
     (case MkdirAll_err x p of
        Some e \<Rightarrow> (Some e, log (EvMkdirAll p) w)
      | None \<Rightarrow> (None, (log (EvMkdirAll p) w)\<lparr>dirs := insert p (dirs w)\<rparr>))"


section \<open>MakeSquashfs\<close>

text \<open>The second half of \<^verbatim>\<open>MakeSquashfs\<close>, from the temporary file for the image
  on. The deferred \<^verbatim>\<open>os.Remove(tmpSquashfs.Name())\<close> runs on every return after
  the file was created.\<close>

definition build_image ::
  "ext \<Rightarrow> string \<Rightarrow> string \<Rightarrow> string \<Rightarrow> string \<Rightarrow> world \<Rightarrow> (error + string) \<times> world" where
  "build_image x tempdir rootfs toExclude excludesFile w =
     (case ioutil_TempFile x tempdir ''stacker-squashfs-img-'' w of
        (Inl e, w1) \<Rightarrow> (Inl (Errno e), w1)
      | (Inr tmpSquashfs, w1) \<Rightarrow>
          let w2 = os_Remove tmpSquashfs w1;
              args = [rootfs, tmpSquashfs] @
                     (if length toExclude \<noteq> 0 then [''-ef'', excludesFile] else [])
          in (case cmd_Run x (''mksquashfs'' # args) w2 of
                (Some e, w3) \<Rightarrow>
                  (Inl (Wrapf e ''couldn't build squashfs''), os_Remove tmpSquashfs w3)
              | (None, w3) \<Rightarrow>
                  let w4 = w3\<lparr>files := (files w3)(tmpSquashfs \<mapsto>
                             RegularFile (squashfs_image x (''mksquashfs'' # args)))\<rparr>
                  in (case os_Open x tmpSquashfs w4 of
                        Inl e \<Rightarrow> (Inl (Errno e), os_Remove tmpSquashfs w4)
                      | Inr (RegularFile blob) \<Rightarrow> (Inr blob, os_Remove tmpSquashfs w4)
                      | Inr (CharDevice major minor) \<Rightarrow> (Inr [], os_Remove tmpSquashfs w4))))"

text \<open>\<^verbatim>\<open>MakeSquashfs(tempdir, rootfs, eps)\<close>; \<open>eps\<close> is \<open>None\<close> for a nil pointer.
  The result is the contents of the image that the returned handle reads.\<close>

definition MakeSquashfs ::
  "ext \<Rightarrow> string \<Rightarrow> string \<Rightarrow> ExcludePaths option \<Rightarrow> world \<Rightarrow> (error + string) \<times> world" where
  "MakeSquashfs x tempdir rootfs eps w =
     (case (case eps of
              None \<Rightarrow> Inr []
            | Some e \<Rightarrow> String_eps (map_keys x (exclude e))) of
        Inl err \<Rightarrow> (Inl (Wrapf err ''couldn't create exclude path list''), w)
      | Inr toExclude \<Rightarrow>
          if length toExclude \<noteq> 0 then
            (case ioutil_TempFile x tempdir ''stacker-squashfs-exclude-'' w of
               (Inl e, w1) \<Rightarrow> (Inl (Errno e), w1)
             | (Inr excludes, w1) \<Rightarrow>
                 (case File_WriteString x excludes toExclude w1 of
                    (Some e, w2) \<Rightarrow> (Inl (Errno e), os_Remove excludes w2)
                  | (None, w2) \<Rightarrow>
                      (case build_image x tempdir rootfs toExclude excludes w2 of
                         (r, w3) \<Rightarrow> (r, os_Remove excludes w3))))
          else build_image x tempdir rootfs toExclude [] w)"

section \<open>GenerateSquashfsLayer\<close>

text \<open>The variables of the loop over the diff.\<close>

record layer_state =
  lworld :: world
  missing :: "string list"
  needsLayer :: bool
  paths :: ExcludePaths

text \<open>Their values before the loop.\<close>

definition initial_state :: "world \<Rightarrow> layer_state" where
  "initial_state w = \<lparr>lworld = w, missing = [], needsLayer = False, paths = NewExcludePaths\<rparr>"

text \<open>The \<^verbatim>\<open>mtree.Missing\<close> case after its call of \<^verbatim>\<open>AddInclude\<close>: the device
  node, and the \<^verbatim>\<open>.wh.\<close> file when \<^verbatim>\<open>Mknod\<close> fails with an error that is
  neither \<^verbatim>\<open>ENOENT\<close> nor \<^verbatim>\<open>ENOTDIR\<close>.\<close>

definition whiteout_path :: "string \<Rightarrow> string \<Rightarrow> string" where
  "whiteout_path rootfsPath dpath =
     (let dirname = path_Dir dpath;
          fname = ''.wh.'' @ path_Base dpath
      in path_Join [rootfsPath, dirname, fname])"

definition make_whiteout ::
  "ext \<Rightarrow> string \<Rightarrow> string \<Rightarrow> world \<Rightarrow> error option \<times> world" where
  "make_whiteout x rootfsPath dpath w =
     (let p = path_Join [rootfsPath, dpath]
      in case unix_Mknod x p w of
           (None, w1) \<Rightarrow> (None, w1)
         | (Some err, w1) \<Rightarrow>
             if \<not> os_IsNotExist err \<and> err \<noteq> ENOTDIR then
               (case os_Create x (whiteout_path rootfsPath dpath) w1 of
                  (Some e, w2) \<Rightarrow>
                    (Some (Wrapf (Errno e) (''couldn't mknod whiteout for '' @ dpath)), w2)
                | (None, w2) \<Rightarrow> (None, w2))
             else (None, w1))"

text \<open>One round of the loop; \<open>None\<close> when \<^verbatim>\<open>AddInclude\<close> does not return.\<close>

definition diff_step ::
  "ext \<Rightarrow> string \<Rightarrow> InodeDelta \<Rightarrow> layer_state \<Rightarrow> (error option \<times> layer_state) option" where
  "diff_step x rootfsPath d st =
     (case diff_Type d of
        Modified \<Rightarrow>
          (case AddInclude (paths st) (path_Join [rootfsPath, diff_Path d]) (New_IsDir d) of
             None \<Rightarrow> None
           | Some eps \<Rightarrow> Some (None, st\<lparr>needsLayer := True, paths := eps\<rparr>))
      | Extra \<Rightarrow>
          (case AddInclude (paths st) (path_Join [rootfsPath, diff_Path d]) (New_IsDir d) of
             None \<Rightarrow> None
           | Some eps \<Rightarrow> Some (None, st\<lparr>needsLayer := True, paths := eps\<rparr>))
      | Missing \<Rightarrow>
          (let p = path_Join [rootfsPath, diff_Path d]
           in case AddInclude (paths st) p (Old_IsDir d) of
                None \<Rightarrow> None
              | Some eps \<Rightarrow>
                  (case make_whiteout x rootfsPath (diff_Path d) (lworld st) of
                     (r, w1) \<Rightarrow>
                       Some (r, st\<lparr>lworld := w1, missing := missing st @ [p],
                                   needsLayer := True, paths := eps\<rparr>)))
      | Same \<Rightarrow>
          Some (None, st\<lparr>paths := AddExclude (paths st) (path_Join [rootfsPath, diff_Path d])\<rparr>))"

fun diff_loop ::
  "ext \<Rightarrow> string \<Rightarrow> InodeDelta list \<Rightarrow> layer_state \<Rightarrow> (error option \<times> layer_state) option" where
  "diff_loop x rootfsPath [] st = Some (None, st)"
| "diff_loop x rootfsPath (d # ds) st =
     (case diff_step x rootfsPath d st of
        None \<Rightarrow> None
      | Some (Some err, st1) \<Rightarrow> Some (Some err, st1)
      | Some (None, st1) \<Rightarrow> diff_loop x rootfsPath ds st1)"

text \<open>The deferred function: \<^verbatim>\<open>os.Remove\<close> on every path of \<open>missing\<close>.\<close>

fun remove_missing :: "string list \<Rightarrow> world \<Rightarrow> world" where
  "remove_missing [] w = w"
| "remove_missing (f # fs) w = remove_missing fs (os_Remove f w)"

text \<open>The part of \<^verbatim>\<open>GenerateSquashfsLayer\<close> after the test of \<open>needsLayer\<close>.\<close>

definition write_layer ::
  "ext \<Rightarrow> string \<Rightarrow> string \<Rightarrow> string \<Rightarrow> string \<Rightarrow> string \<Rightarrow> Meta \<Rightarrow> ExcludePaths \<Rightarrow> world
     \<Rightarrow> error option \<times> world" where
  "write_layer x name bundlepath ocidir rootfsPath mtreePath meta eps w =
     (case MakeSquashfs x ocidir rootfsPath (Some eps) w of
        (Inl err, w1) \<Rightarrow> (Some err, w1)
      | (Inr tmpSquashfs, w1) \<Rightarrow>
          (case AddBlobNoCompression x name tmpSquashfs w1 of
             (Inl err, w2) \<Rightarrow> (Some err, w2)
           | (Inr desc, w2) \<Rightarrow>
               let newName = strings_Replace (Digest desc) (CHR '':'') (CHR ''_'') 1 @ ''.mtree''
               in (case GenerateBundleManifest x newName bundlepath w2 of
                     (Some err, w3) \<Rightarrow> (Some err, w3)
                   | (None, w3) \<Rightarrow>
                       let w4 = os_Remove mtreePath w3;
                           meta' = meta\<lparr>From := \<lparr>Walk = [desc]\<rparr>\<rparr>
                       in WriteBundleMeta x bundlepath meta' w4)))"

text \<open>\<^verbatim>\<open>GenerateSquashfsLayer(name, author, bundlepath, ocidir, oci)\<close>: the error
  it returns (\<open>None\<close> for nil; \<open>Panic\<close> when \<^verbatim>\<open>meta.From.Descriptor()\<close> panics,
  before anything was changed) and the world it leaves; the outer \<open>None\<close> is
  a call that does not return because the loop of \<^verbatim>\<open>AddInclude\<close> does not end.\<close>

definition GenerateSquashfsLayer ::
  "ext \<Rightarrow> string \<Rightarrow> string \<Rightarrow> string \<Rightarrow> string \<Rightarrow> world \<Rightarrow> (error option \<times> world) option" where
  "GenerateSquashfsLayer x name author bundlepath ocidir w =
     (case ReadBundleMeta x bundlepath w of
        Inl err \<Rightarrow> Some (Some err, w)
      | Inr meta \<Rightarrow>
          (case DescriptorPath_Descriptor (From meta) of
             Inl panic \<Rightarrow> Some (Some panic, w)
           | Inr from_desc \<Rightarrow>
          let mtreeName = strings_Replace (Digest from_desc) (CHR '':'') (CHR ''_'') 1;
              mtreePath = path_Join [bundlepath, mtreeName @ ''.mtree'']
          in (case os_Open x mtreePath w of
                Inl e \<Rightarrow> Some (Some (Wrapf (Errno e) ''opening mtree''), w)
              | Inr mfh \<Rightarrow>
                  (case ParseSpec_err x of
                     Some err \<Rightarrow> Some (Some err, w)
                   | None \<Rightarrow>
                       let rootfsPath = path_Join [bundlepath, ''rootfs'']
                       in (case Walk_err x rootfsPath of
                             Some err \<Rightarrow>
                               Some (Some (Wrapf err (''couldn't mtree walk '' @ rootfsPath)), w)
                           | None \<Rightarrow>
                               (case CompareSame_res x of
                                  Inl err \<Rightarrow> Some (Some err, w)
                                | Inr diffs0 \<Rightarrow>
                                    let diffs = FilterDeltas x diffs0
                                    in (case diff_loop x rootfsPath diffs (initial_state w) of
                                          None \<Rightarrow> None
                                        | Some (Some err, st) \<Rightarrow>
                                            Some (Some err, remove_missing (missing st) (lworld st))
                                        | Some (None, st) \<Rightarrow>
                                            if \<not> needsLayer st then
                                              Some (None, remove_missing (missing st) (lworld st))
                                            else
                                              (case write_layer x name bundlepath ocidir rootfsPath
                                                      mtreePath meta (paths st) (lworld st) of
                                                 (r, w1) \<Rightarrow>
                                                   Some (r, remove_missing (missing st) w1)))))))))"

section \<open>ExtractSingleSquash\<close>

text \<open>\<^verbatim>\<open>whichSearch\<close>: the candidates, then the first one that
  \<^verbatim>\<open>unix.Access(fPath, unix.X_OK)\<close> accepts, or the empty string.\<close>

fun first_executable :: "ext \<Rightarrow> string list \<Rightarrow> string" where
  "first_executable x [] = []"
| "first_executable x (fPath # search) =
     (if Access_X_OK x fPath then fPath else first_executable x search)"

definition whichSearch :: "ext \<Rightarrow> string \<Rightarrow> string list \<Rightarrow> string" where
  "whichSearch x name paths0 =
     (let search =
            (if CHR ''/'' \<in> set name then
               (if path_IsAbs name then [name] else [''./'' @ name])
             else map (\<lambda>p. path_Join [p, name]) paths0)
      in first_executable x search)"

definition which :: "ext \<Rightarrow> string \<Rightarrow> string" where
  "which x name = whichSearch x name (strings_Split (Getenv x ''PATH'') (CHR '':''))"

definition squashtool_missing :: string where
  "squashtool_missing =
     ''must have squashtool (https://github.com/anuvu/squashfs) to correctly extract squashfs using btrfs storage backend''"

definition ExtractSingleSquash ::
  "ext \<Rightarrow> string \<Rightarrow> string \<Rightarrow> string \<Rightarrow> world \<Rightarrow> error option \<times> world" where
  "ExtractSingleSquash x squashFile extractDir storageType w =
     (case os_MkdirAll x extractDir w of
        (Some e, w1) \<Rightarrow> (Some (Errno e), w1)
      | (None, w1) \<Rightarrow>
          if storageType = ''btrfs'' then
            (if which x ''squashtool'' = [] then (Some (Errorf squashtool_missing), w1)
             else cmd_Run x ([''squashtool'', ''extract'', ''--whiteouts'', ''--perms'',
                              ''--devs'', ''--sockets'', ''--owners''] @ [squashFile, extractDir]) w1)
          else cmd_Run x [''unsquashfs'', ''-f'', ''-d'', extractDir, squashFile] w1)"

section \<open>An example environment\<close>

text \<open>A bundle at \<open>/b\<close> that was unpacked from the manifest \<open>sha256:aa\<close>, and a
  world in which every call succeeds, but for \<^verbatim>\<open>Mknod\<close>, whose outcome is the
  parameter, and in which no tool is found on \<^verbatim>\<open>PATH\<close>. The diff is the second
  parameter.\<close>

definition example_ext :: "errno option \<Rightarrow> InodeDelta list \<Rightarrow> ext" where
  "example_ext mknod_err ds =
     \<lparr>ReadBundleMeta_err = None,
      Open_err = (\<lambda>p. None),
      ParseSpec_err = None,
      Walk_err = (\<lambda>p. None),
      CompareSame_res = Inr ds,
      FilterDeltas = (\<lambda>ds. ds),
      Mknod_err = (\<lambda>p. mknod_err),
      Create_err = (\<lambda>p. None),
      map_keys = (\<lambda>m. filter (\<lambda>p. m p \<noteq> None) [''/b/rootfs/etc/passwd'']),
      TempFile_res = (\<lambda>dir pattern. Inr (dir @ ''/'' @ pattern @ ''1'')),
      WriteString_err = (\<lambda>f. None),
      Run_err = (\<lambda>argv. None),
      squashfs_image = (\<lambda>argv. ''hsqs''),
      AddBlob_res = (\<lambda>name blob.
        Inr \<lparr>MediaType = ''application/vnd.oci.image.layer.squashfs'',
             Digest = ''sha256:bb'', Size = 4\<rparr>),
      GenerateBundleManifest_err = (\<lambda>name. None),
      manifest_text = ''#mtree new'',
      WriteBundleMeta_err = None,
      MkdirAll_err = (\<lambda>p. None),
      Getenv = (\<lambda>v. if v = ''PATH'' then ''/usr/bin:/bin'' else []),
      Access_X_OK = (\<lambda>p. False)\<rparr>"

definition example_world :: world where
  "example_world =
     \<lparr>files = [''/b/sha256_aa.mtree'' \<mapsto> RegularFile ''#mtree old''],
      dirs = {},
      bundle_meta = \<lparr>Version = ''2'',
                     From = \<lparr>Walk = [\<lparr>MediaType = ''application/vnd.oci.image.manifest.v1+json'',
                                      Digest = ''sha256:aa'', Size = 1\<rparr>]\<rparr>\<rparr>,
      blobs = [],
      trace = []\<rparr>"

text \<open>A diff with one entry: \<open>etc/hosts\<close>, a file of the old manifest, is gone.\<close>

definition hosts_missing :: InodeDelta where
  "hosts_missing = \<lparr>diff_Type = Missing, diff_Path = ''etc/hosts'', Old_IsDir = False, New_IsDir = False\<rparr>"

section \<open>Absolute, normalized paths\<close>

text \<open>An absolute, normalized path is \<open>abs_path cs\<close> for a list \<open>cs\<close> of good
  elements, and on these paths \<^verbatim>\<open>path.Dir\<close> drops the last element.\<close>

lemma slashed_simps [simp]:
  "slashed [] = []" "slashed (c # cs) = CHR ''/'' # c @ slashed cs"
  "slashed (xs @ ys) = slashed xs @ slashed ys"
  by (simp_all add: slashed_def)

lemma Split_nonempty [simp]: "strings_Split s sep \<noteq> []"
  by (induction s) (auto split: list.splits)

lemma Split_no_sep: "sep \<notin> set c \<Longrightarrow> strings_Split (c @ sep # rest) sep = c # strings_Split rest sep"
  by (induction c) (auto split: list.splits)

lemma Split_single: "sep \<notin> set c \<Longrightarrow> strings_Split c sep = [c]"
  by (induction c) (auto split: list.splits)

lemma Split_elems_no_sep: "c \<in> set (strings_Split s sep) \<Longrightarrow> sep \<notin> set c"
  by (induction s arbitrary: c) (auto split: list.splits if_splits)

lemma Split_slashed:
  "CHR ''/'' \<notin> set c \<Longrightarrow> \<forall>e\<in>set cs. CHR ''/'' \<notin> set e \<Longrightarrow>
   strings_Split (c @ slashed cs) (CHR ''/'') = c # cs"
proof (induction cs arbitrary: c)
  case Nil
  then show ?case by (simp add: Split_single)
next
  case (Cons a cs)
  then show ?case by (simp add: Split_no_sep)
qed

lemma Split_slashed_slash:
  "CHR ''/'' \<notin> set c \<Longrightarrow> \<forall>e\<in>set cs. CHR ''/'' \<notin> set e \<Longrightarrow>
   strings_Split (c @ slashed cs @ ''/'') (CHR ''/'') = c # cs @ [[]]"
proof (induction cs arbitrary: c)
  case Nil
  then show ?case by (simp add: Split_no_sep)
next
  case (Cons a cs)
  then show ?case by (simp add: Split_no_sep)
qed

lemma clean_elems_append:
  "clean_elems r out (xs @ ys) = clean_elems r (clean_elems r out xs) ys"
  by (induction r out xs rule: clean_elems.induct) auto

lemma clean_elems_good:
  "\<forall>c\<in>set cs. good_elem c \<Longrightarrow> clean_elems r out cs = rev cs @ out"
  by (induction cs arbitrary: out) (auto simp: good_elem_def)

lemma clean_elems_rooted_good:
  "\<forall>c\<in>set xs. CHR ''/'' \<notin> set c \<Longrightarrow> \<forall>c\<in>set out. good_elem c \<Longrightarrow>
   \<forall>c\<in>set (clean_elems True out xs). good_elem c"
proof (induction xs arbitrary: out)
  case Nil
  then show ?case by simp
next
  case (Cons x xs)
  have rest: "\<forall>c\<in>set xs. CHR ''/'' \<notin> set c" using Cons.prems(1) by simp
  have tl: "\<forall>c\<in>set (tl out). good_elem c"
    using Cons.prems(2) by (cases out) auto
  consider (skip) "x = [] \<or> x = ''.''" | (up) "x = ''..''" | (elem) "good_elem x"
    using Cons.prems(1) by (auto simp: good_elem_def)
  then show ?case
  proof cases
    case skip
    then show ?thesis using Cons.IH[OF rest Cons.prems(2)] by auto
  next
    case up
    then show ?thesis
      using Cons.IH[OF rest Cons.prems(2)] Cons.IH[OF rest tl] by simp
  next
    case elem
    then have "\<forall>c\<in>set (x # out). good_elem c" using Cons.prems(2) by simp
    from Cons.IH[OF rest this] elem show ?thesis by (simp add: good_elem_def)
  qed
qed

lemma dropWhile_upto_sep:
  "sep \<notin> set c \<Longrightarrow> dropWhile (\<lambda>x. x \<noteq> sep) (c @ sep # r) = sep # r"
  by (induction c) auto

lemma takeWhile_upto_sep:
  "sep \<notin> set c \<Longrightarrow> takeWhile (\<lambda>x. x \<noteq> sep) (c @ sep # r) = c"
  by (induction c) auto

lemma Join_slashed: "cs \<noteq> [] \<Longrightarrow> CHR ''/'' # strings_Join cs ''/'' = slashed cs"
  by (induction cs rule: induct_list012) auto

lemma Join_abs_path: "CHR ''/'' # strings_Join cs ''/'' = abs_path cs"
  by (cases "cs = []") (simp_all add: abs_path_def Join_slashed)

lemma abs_path_nonempty [simp]: "abs_path cs \<noteq> []"
  by (cases cs) (simp_all add: abs_path_def)

lemma hd_abs_path [simp]: "hd (abs_path cs) = CHR ''/''"
  by (cases cs) (simp_all add: abs_path_def)

lemma Split_abs_path:
  assumes "\<forall>c\<in>set cs. good_elem c"
  shows "filter (\<lambda>e. e \<noteq> []) (strings_Split (abs_path cs) (CHR ''/'')) = cs"
proof (cases "cs = []")
  case True
  then show ?thesis by (simp add: abs_path_def)
next
  case False
  have "strings_Split ([] @ slashed cs) (CHR ''/'') = [] # cs"
    using assms by (intro Split_slashed) (auto simp: good_elem_def)
  moreover have "filter (\<lambda>e. e \<noteq> []) cs = cs"
    using assms by (auto simp: good_elem_def filter_id_conv)
  ultimately show ?thesis using False by (simp add: abs_path_def)
qed

lemma Clean_abs_path:
  assumes "\<forall>c\<in>set cs. good_elem c"
  shows "path_Clean (abs_path cs) = abs_path cs"
proof (cases "cs = []")
  case True
  then show ?thesis by (simp add: abs_path_def path_Clean_def)
next
  case False
  have sp: "strings_Split (abs_path cs) (CHR ''/'') = [] # cs"
    using Split_slashed[of "[]" cs] assms False by (simp add: abs_path_def good_elem_def)
  show ?thesis
    using assms by (simp add: path_Clean_def sp clean_elems_good Join_abs_path)
qed

lemma Clean_slashed_slash:
  assumes "\<forall>c\<in>set cs. good_elem c"
  shows "path_Clean (slashed cs @ ''/'') = abs_path cs"
proof -
  have sp: "strings_Split (slashed cs @ ''/'') (CHR ''/'') = [] # cs @ [[]]"
    using Split_slashed_slash[of "[]" cs] assms by (simp add: good_elem_def)
  have hd: "hd (slashed cs @ ''/'') = CHR ''/''"
    by (cases cs) simp_all
  show ?thesis
    using assms by (simp add: path_Clean_def sp hd clean_elems_append clean_elems_good Join_abs_path)
qed

lemma Split_last_elem:
  assumes "CHR ''/'' \<notin> set c"
  shows "path_Split (slashed cs @ CHR ''/'' # c) = (slashed cs @ ''/'', c)"
proof -
  have r: "rev (slashed cs @ CHR ''/'' # c) = rev c @ CHR ''/'' # rev (slashed cs)"
    by simp
  have n: "CHR ''/'' \<notin> set (rev c)" using assms by simp
  show ?thesis
    unfolding path_Split_def r dropWhile_upto_sep[OF n] takeWhile_upto_sep[OF n] by simp
qed

lemma Dir_abs_path_snoc:
  assumes "\<forall>e\<in>set cs. good_elem e" "good_elem c"
  shows "path_Dir (abs_path (cs @ [c])) = abs_path cs"
proof -
  have "CHR ''/'' \<notin> set c" using assms(2) by (simp add: good_elem_def)
  then have "fst (path_Split (abs_path (cs @ [c]))) = slashed cs @ ''/''"
    by (simp add: abs_path_def Split_last_elem)
  then show ?thesis
    using Clean_slashed_slash[OF assms(1)] by (simp add: path_Dir_def)
qed

lemma Dir_root: "path_Dir ''/'' = ''/''"
  by (simp add: path_Dir_def path_Split_def path_Clean_def)

lemma clean_abs_repr:
  assumes "is_clean_abs p"
  shows "\<exists>cs. (\<forall>c\<in>set cs. good_elem c) \<and> p = abs_path cs"
proof -
  let ?out = "rev (clean_elems True [] (strings_Split p (CHR ''/'')))"
  from assms have ne: "p \<noteq> []" and hd: "hd p = CHR ''/''" and cl: "path_Clean p = p"
    by (auto simp: is_clean_abs_def path_IsAbs_def)
  have "\<forall>c\<in>set (clean_elems True [] (strings_Split p (CHR ''/''))). good_elem c"
    by (rule clean_elems_rooted_good) (auto dest: Split_elems_no_sep)
  then have good: "\<forall>c\<in>set ?out. good_elem c" by simp
  have "path_Clean p = abs_path ?out"
    using ne hd by (simp add: path_Clean_def Join_abs_path)
  with cl good show ?thesis by metis
qed

lemma abs_path_clean:
  "\<forall>c\<in>set cs. good_elem c \<Longrightarrow> is_clean_abs (abs_path cs)"
  by (simp add: is_clean_abs_def path_IsAbs_def Clean_abs_path)

lemma HasPrefix_iff: "strings_HasPrefix s pre \<longleftrightarrow> prefix pre s"
proof
  assume "strings_HasPrefix s pre"
  then have "s = pre @ drop (length pre) s"
    unfolding strings_HasPrefix_def by (metis append_take_drop_id)
  then show "prefix pre s" by (rule prefixI)
next
  assume "prefix pre s"
  then show "strings_HasPrefix s pre"
    by (auto simp: strings_HasPrefix_def prefix_def)
qed

lemma has_prefixed_include_iff:
  "has_prefixed_include incs p \<longleftrightarrow> (\<exists>inc\<in>set incs. prefix p inc)"
  by (induction incs) (auto simp: HasPrefix_iff)

lemma path_elems_abs_path: "\<forall>c\<in>set cs. good_elem c \<Longrightarrow> path_elems (abs_path cs) = cs"
  by (simp add: path_elems_def Split_abs_path)

lemma IsAbs_abs_path [simp]: "path_IsAbs (abs_path cs)"
  by (simp add: path_IsAbs_def)

lemma dir_prefix_abs_path:
  "\<forall>c\<in>set es. good_elem c \<Longrightarrow> \<forall>c\<in>set cs. good_elem c \<Longrightarrow>
   dir_prefix (abs_path es) (abs_path cs) \<longleftrightarrow> prefix es cs"
  by (simp add: dir_prefix_def path_elems_abs_path)

lemma abs_path_inj:
  "\<forall>c\<in>set es. good_elem c \<Longrightarrow> \<forall>c\<in>set cs. good_elem c \<Longrightarrow>
   abs_path es = abs_path cs \<Longrightarrow> es = cs"
proof -
  assume g: "\<forall>c\<in>set es. good_elem c" "\<forall>c\<in>set cs. good_elem c"
    and eq: "abs_path es = abs_path cs"
  have "path_elems (abs_path es) = path_elems (abs_path cs)" using eq by simp
  then show "es = cs" using g by (simp add: path_elems_abs_path)
qed

lemma abs_path_root_iff:
  "\<forall>c\<in>set cs. good_elem c \<Longrightarrow> abs_path cs = ''/'' \<longleftrightarrow> cs = []"
proof
  assume g: "\<forall>c\<in>set cs. good_elem c" and "abs_path cs = ''/''"
  then have "abs_path cs = abs_path []" by (simp add: abs_path_def)
  then show "cs = []" using g by (intro abs_path_inj) simp_all
next
  assume "cs = []"
  then show "abs_path cs = ''/''" by (simp add: abs_path_def)
qed

lemma prefix_abs_path:
  assumes "prefix es cs"
  shows "prefix (abs_path es) (abs_path cs)"
proof -
  from assms obtain zs where cs: "cs = es @ zs" by (auto simp: prefix_def)
  show ?thesis
  proof (cases "es = []")
    case True
    have "abs_path cs = CHR ''/'' # tl (abs_path cs)"
      using abs_path_nonempty[of cs] hd_abs_path[of cs] by (metis list.collapse)
    moreover have "prefix ''/'' (CHR ''/'' # tl (abs_path cs))" by simp
    ultimately show ?thesis using True by (simp add: abs_path_def)
  next
    case False
    then show ?thesis using cs by (simp add: abs_path_def)
  qed
qed

lemma parent_paths_Nil [simp]: "parent_paths [] = {}"
  by (simp add: parent_paths_def)

lemma parent_paths_snoc: "parent_paths (cs @ [c]) = insert (abs_path (cs @ [c])) (parent_paths cs)"
proof -
  have "prefixes cs \<noteq> []" by (cases cs rule: rev_cases) simp_all
  then have "tl (prefixes cs @ [cs @ [c]]) = tl (prefixes cs) @ [cs @ [c]]" by simp
  then show ?thesis by (simp add: parent_paths_def)
qed

lemma parent_paths_iff:
  "q \<in> parent_paths cs \<longleftrightarrow> (\<exists>es. es \<noteq> [] \<and> prefix es cs \<and> q = abs_path es)"
proof -
  have "set (tl (prefixes cs)) = {es. es \<noteq> [] \<and> prefix es cs}"
  proof (induction cs rule: rev_induct)
    case Nil
    then show ?case by simp
  next
    case (snoc c cs)
    have "prefixes cs \<noteq> []" by (cases cs rule: rev_cases) simp_all
    then have "tl (prefixes cs @ [cs @ [c]]) = tl (prefixes cs) @ [cs @ [c]]" by simp
    then show ?case using snoc by (auto simp: prefix_snoc)
  qed
  then show ?thesis by (auto simp: parent_paths_def)
qed

lemma remove_parents_abs_path:
  "\<forall>c\<in>set cs. good_elem c \<Longrightarrow>
   remove_parents ex (abs_path cs) = Some (ex |` (- parent_paths cs))"
proof (induction cs arbitrary: ex rule: rev_induct)
  case Nil
  then show ?case by (simp add: remove_parents.simps abs_path_def)
next
  case (snoc c cs)
  let ?p = "abs_path (cs @ [c])"
  have good: "\<forall>e\<in>set cs. good_elem e" "good_elem c" using snoc.prems by simp_all
  have ne: "?p \<noteq> ''/''" using abs_path_root_iff[of "cs @ [c]"] snoc.prems by simp
  have "remove_parents ex ?p = remove_parents (ex(?p := None)) (path_Dir ?p)"
    using ne by (subst remove_parents.simps) simp
  also have "\<dots> = Some ((ex(?p := None)) |` (- parent_paths cs))"
    unfolding Dir_abs_path_snoc[OF good] by (rule snoc.IH[OF good(1)])
  also have "(ex(?p := None)) |` (- parent_paths cs) = ex |` (- parent_paths (cs @ [c]))"
    by (rule ext) (simp add: parent_paths_snoc restrict_map_def)
  finally show ?case .
qed

section \<open>The invariant of ExcludePaths\<close>

lemma eps_inv_excl: "eps_inv eps H \<Longrightarrow> e \<in> dom (exclude eps) \<Longrightarrow> is_clean_abs e"
  by (simp add: eps_inv_def)

lemma eps_inv_incl: "eps_inv eps H \<Longrightarrow> include_list eps = map fst H"
  by (simp add: eps_inv_def)

lemma eps_inv_hist: "eps_inv eps H \<Longrightarrow> (inc, d) \<in> set H \<Longrightarrow> is_clean_abs inc"
  unfolding eps_inv_def by blast

lemma eps_inv_safe:
  "eps_inv eps H \<Longrightarrow> e \<in> dom (exclude eps) \<Longrightarrow> (inc, d) \<in> set H \<Longrightarrow> dir_prefix e inc \<Longrightarrow>
   e = ''/'' \<or> (e = inc \<and> \<not> d)"
  unfolding eps_inv_def by blast

lemma eps_invI:
  assumes "\<And>e. e \<in> dom (exclude eps) \<Longrightarrow> is_clean_abs e"
    and "include_list eps = map fst H"
    and "\<And>inc d. (inc, d) \<in> set H \<Longrightarrow> is_clean_abs inc"
    and "\<And>e inc d. e \<in> dom (exclude eps) \<Longrightarrow> (inc, d) \<in> set H \<Longrightarrow> dir_prefix e inc \<Longrightarrow>
           e = ''/'' \<or> (e = inc \<and> \<not> d)"
  shows "eps_inv eps H"
  unfolding eps_inv_def using assms by blast

lemma call_includes_append: "call_includes (xs @ ys) = call_includes xs @ call_includes ys"
  by (induction xs rule: call_includes.induct) simp_all

lemma call_includes_set: "(p, d) \<in> set (call_includes cs) \<longleftrightarrow> CallInclude p d \<in> set cs"
  by (induction cs rule: call_includes.induct) auto

lemma AddInclude_abs_path:
  assumes "\<forall>c\<in>set cs. good_elem c"
  shows "AddInclude eps (abs_path cs) isDir =
         Some \<lparr>exclude = exclude eps |` (- parent_paths (if isDir then cs else butlast cs)),
               include_list = include_list eps @ [abs_path cs]\<rparr>"
proof (cases isDir)
  case True
  then show ?thesis by (simp add: AddInclude_def remove_parents_abs_path[OF assms])
next
  case False
  have bl: "\<forall>c\<in>set (butlast cs). good_elem c"
    using assms by (auto dest: in_set_butlastD)
  have "path_Dir (abs_path cs) = abs_path (butlast cs)"
  proof (cases cs rule: rev_cases)
    case Nil
    then show ?thesis by (simp add: abs_path_def Dir_root)
  next
    case (snoc bs b)
    then show ?thesis using assms Dir_abs_path_snoc[of bs b] by simp
  qed
  then show ?thesis using False by (simp add: AddInclude_def remove_parents_abs_path[OF bl])
qed

lemma eps_inv_AddExclude:
  assumes inv: "eps_inv eps H" and p: "is_clean_abs p"
  shows "eps_inv (AddExclude eps p) H"
proof (cases "has_prefixed_include (include_list eps) p")
  case True
  then show ?thesis using inv by (simp add: AddExclude_def)
next
  case False
  from p obtain es where es: "\<forall>c\<in>set es. good_elem c" "p = abs_path es"
    using clean_abs_repr by blast
  have none: "\<not> dir_prefix p inc" if h: "(inc, d) \<in> set H" for inc d
  proof
    assume dp: "dir_prefix p inc"
    from eps_inv_hist[OF inv h] obtain cs where cs: "\<forall>c\<in>set cs. good_elem c" "inc = abs_path cs"
      using clean_abs_repr by blast
    from dp have "prefix es cs" using es cs by (simp add: dir_prefix_abs_path)
    then have "prefix p inc" using es cs by (simp add: prefix_abs_path)
    moreover have "inc \<in> set (include_list eps)"
      using h eps_inv_incl[OF inv] by force
    ultimately show False using False by (auto simp: has_prefixed_include_iff)
  qed
  have upd: "AddExclude eps p = eps\<lparr>exclude := (exclude eps)(p \<mapsto> True)\<rparr>"
    using False by (simp add: AddExclude_def)
  show ?thesis
    unfolding upd
  proof (rule eps_invI)
    fix e assume "e \<in> dom (exclude (eps\<lparr>exclude := (exclude eps)(p \<mapsto> True)\<rparr>))"
    then have "e = p \<or> e \<in> dom (exclude eps)" by auto
    then show "is_clean_abs e" using p eps_inv_excl[OF inv] by blast
  next
    show "include_list (eps\<lparr>exclude := (exclude eps)(p \<mapsto> True)\<rparr>) = map fst H"
      using eps_inv_incl[OF inv] by simp
  next
    fix inc d assume "(inc, d) \<in> set H"
    then show "is_clean_abs inc" by (rule eps_inv_hist[OF inv])
  next
    fix e inc d
    assume e: "e \<in> dom (exclude (eps\<lparr>exclude := (exclude eps)(p \<mapsto> True)\<rparr>))"
      and h: "(inc, d) \<in> set H" and dp: "dir_prefix e inc"
    from e have "e = p \<or> e \<in> dom (exclude eps)" by auto
    then show "e = ''/'' \<or> (e = inc \<and> \<not> d)"
    proof
      assume "e = p"
      then show ?thesis using none[OF h] dp by simp
    next
      assume "e \<in> dom (exclude eps)"
      then show ?thesis by (rule eps_inv_safe[OF inv _ h dp])
    qed
  qed
qed

lemma eps_inv_AddInclude:
  assumes inv: "eps_inv eps H" and p: "is_clean_abs orig"
  shows "\<exists>eps'. AddInclude eps orig isDir = Some eps' \<and> eps_inv eps' (H @ [(orig, isDir)])"
proof -
  from p obtain cs where cs: "\<forall>c\<in>set cs. good_elem c" "orig = abs_path cs"
    using clean_abs_repr by blast
  define R where "R = parent_paths (if isDir then cs else butlast cs)"
  define eps' where "eps' = \<lparr>exclude = exclude eps |` (- R), include_list = include_list eps @ [orig]\<rparr>"
  have run: "AddInclude eps orig isDir = Some eps'"
    using AddInclude_abs_path[OF cs(1)] cs(2) by (simp add: eps'_def R_def)
  have dom: "e \<in> dom (exclude eps) \<and> e \<notin> R" if "e \<in> dom (exclude eps')" for e
    using that by (auto simp: eps'_def restrict_map_def split: if_splits)
  have new: "e = ''/'' \<or> (e = orig \<and> \<not> isDir)"
    if e: "e \<in> dom (exclude eps')" and dp: "dir_prefix e orig" for e
  proof -
    from dom[OF e] have ed: "e \<in> dom (exclude eps)" and notR: "e \<notin> R" by simp_all
    from eps_inv_excl[OF inv ed] obtain es where es: "\<forall>c\<in>set es. good_elem c" "e = abs_path es"
      using clean_abs_repr by blast
    from dp have pre: "prefix es cs" using es cs by (simp add: dir_prefix_abs_path)
    show ?thesis
    proof (cases "es = []")
      case True
      then show ?thesis using es by (simp add: abs_path_def)
    next
      case False
      have np: "\<not> prefix es (if isDir then cs else butlast cs)"
        using notR False es(2) unfolding R_def parent_paths_iff by blast
      have "es = cs \<and> \<not> isDir"
      proof (cases isDir)
        case True
        then show ?thesis using np pre by simp
      next
        case nd: False
        show ?thesis
        proof (cases cs rule: rev_cases)
          case Nil
          then show ?thesis using pre False by simp
        next
          case (snoc bs b)
          then show ?thesis using np pre nd by (simp add: prefix_snoc)
        qed
      qed
      then show ?thesis using es cs by simp
    qed
  qed
  have "eps_inv eps' (H @ [(orig, isDir)])"
  proof (rule eps_invI)
    fix e assume "e \<in> dom (exclude eps')"
    then show "is_clean_abs e" using dom eps_inv_excl[OF inv] by blast
  next
    show "include_list eps' = map fst (H @ [(orig, isDir)])"
      using eps_inv_incl[OF inv] by (simp add: eps'_def)
  next
    fix inc d assume "(inc, d) \<in> set (H @ [(orig, isDir)])"
    then have "(inc, d) \<in> set H \<or> inc = orig" by auto
    then show "is_clean_abs inc" using p eps_inv_hist[OF inv] by blast
  next
    fix e inc d
    assume e: "e \<in> dom (exclude eps')" and h: "(inc, d) \<in> set (H @ [(orig, isDir)])"
      and dp: "dir_prefix e inc"
    from h have "(inc, d) \<in> set H \<or> (inc = orig \<and> d = isDir)" by auto
    then show "e = ''/'' \<or> (e = inc \<and> \<not> d)"
    proof
      assume h': "(inc, d) \<in> set H"
      from dom[OF e] have "e \<in> dom (exclude eps)" by simp
      then show ?thesis by (rule eps_inv_safe[OF inv _ h' dp])
    next
      assume "inc = orig \<and> d = isDir"
      then show ?thesis using new[OF e] dp by simp
    qed
  qed
  with run show ?thesis by blast
qed

lemma eps_inv_run_call:
  assumes "eps_inv eps H" "is_clean_abs (call_path c)"
  shows "\<exists>eps'. run_call eps c = Some eps' \<and> eps_inv eps' (H @ call_includes [c])"
proof (cases c)
  case (CallExclude p)
  then show ?thesis using assms eps_inv_AddExclude[of eps H p] by simp
next
  case (CallInclude p d)
  then show ?thesis using assms eps_inv_AddInclude[of eps H p d] by simp
qed

lemma eps_inv_run_calls:
  assumes "eps_inv eps H" "\<forall>c\<in>set cs. is_clean_abs (call_path c)"
  shows "\<exists>eps'. run_calls eps cs = Some eps' \<and> eps_inv eps' (H @ call_includes cs)"
  using assms
proof (induction cs arbitrary: eps H)
  case Nil
  then show ?case by simp
next
  case (Cons c cs)
  have c: "is_clean_abs (call_path c)" and rest: "\<forall>c\<in>set cs. is_clean_abs (call_path c)"
    using Cons.prems(2) by simp_all
  from eps_inv_run_call[OF Cons.prems(1) c]
  obtain eps1 where s1: "run_call eps c = Some eps1" "eps_inv eps1 (H @ call_includes [c])"
    by blast
  from Cons.IH[OF s1(2) rest]
  obtain eps' where s2: "run_calls eps1 cs = Some eps'"
    "eps_inv eps' ((H @ call_includes [c]) @ call_includes cs)" by blast
  have "call_includes [c] @ call_includes cs = call_includes (c # cs)"
    using call_includes_append[of "[c]" cs] by simp
  then have "eps_inv eps' (H @ call_includes (c # cs))" using s2(2) by simp
  moreover have "run_calls eps (c # cs) = Some eps'" using s1(1) s2(1) by simp
  ultimately show ?case by blast
qed

lemma eps_inv_New: "eps_inv NewExcludePaths []"
  by (simp add: eps_inv_def NewExcludePaths_def)

lemma run_calls_include_list:
  "run_calls eps calls = Some eps' \<Longrightarrow>
   include_list eps' = include_list eps @ map fst (call_includes calls)"
proof (induction calls arbitrary: eps)
  case Nil
  then show ?case by simp
next
  case (Cons c calls)
  then obtain eps1 where s: "run_call eps c = Some eps1" "run_calls eps1 calls = Some eps'"
    by (auto split: option.splits)
  have "include_list eps1 = include_list eps @ map fst (call_includes [c])"
    using s(1) by (cases c) (auto simp: AddExclude_def AddInclude_def split: option.splits)
  moreover have "call_includes (c # calls) = call_includes [c] @ call_includes calls"
    using call_includes_append[of "[c]" calls] by simp
  ultimately show ?case using Cons.IH[OF s(2)] by simp
qed

lemmas path_eval = path_Clean_def path_Dir_def path_Split_def path_IsAbs_def
  path_elems_def dir_prefix_def is_clean_abs_def strict_ancestor_def

lemmas eps_eval = remove_parents.simps AddInclude_def AddExclude_def NewExcludePaths_def
  strings_HasPrefix_def

section \<open>The rendered text\<close>

lemma write_paths_eq:
  "write_paths buf ks = Inr (buf @ concat (map (\<lambda>p. p @ [CHR 0x0A]) ks))"
  by (induction ks arbitrary: buf) (simp_all add: Buffer_WriteString_def)

lemma String_eps_eq:
  "String_eps ks = Inr (concat (map (\<lambda>p. p @ [CHR 0x0A]) ks) @ [CHR 0x0A])"
  by (simp add: String_eps_def write_paths_eq Buffer_WriteString_def)

lemma Split_rendered:
  "\<forall>k\<in>set ks. sep \<notin> set k \<Longrightarrow>
   strings_Split (concat (map (\<lambda>p. p @ [sep]) ks) @ [sep]) sep = ks @ [[], []]"
  by (induction ks) (simp_all add: Split_no_sep)

lemma rendered_lines_keys:
  "\<forall>k\<in>set ks. CHR 0x0A \<notin> set k \<Longrightarrow>
   rendered_lines (concat (map (\<lambda>p. p @ [CHR 0x0A]) ks) @ [CHR 0x0A]) = ks"
  by (simp add: rendered_lines_def Split_rendered butlast_append)

section \<open>Properties of ExcludePaths\<close>

text \<open>
  Claim C1 (subtree safety), as the code has it. For every sequence of
  \<^verbatim>\<open>AddInclude\<close>/\<^verbatim>\<open>AddExclude\<close> calls on absolute, normalized paths that starts from
  the empty \<^verbatim>\<open>ExcludePaths\<close>, every call returns, and a path of the exclude map
  that is a prefix, in the directory hierarchy, of a path of the include list
  is either the root \<open>/\<close>, which the loop of \<^verbatim>\<open>AddInclude\<close> never deletes, or that
  included path itself, and then the path was never included as a directory:
  for a file the loop starts at the parent. So no excluded path other than \<open>/\<close>
  is a directory strictly above an included path. And hence the same holds of
  the rendered exclude lines: in whatever order \<^verbatim>\<open>range\<close> visits the map,
  \<^verbatim>\<open>String\<close> returns the excluded paths, each once and raw with a newline after
  it, and one more newline; when no excluded path holds a newline, the lines
  of the text are these paths, so a line that is a prefix of an included path
  is \<open>/\<close> or that path, never included as a directory.
\<close>

theorem subtree_safety_clean_paths:
  assumes "\<forall>c\<in>set calls. is_clean_abs (call_path c)"
  shows "\<exists>eps. run_calls NewExcludePaths calls = Some eps \<and>
           (\<forall>e\<in>dom (exclude eps). \<forall>inc\<in>set (include_list eps).
              dir_prefix e inc \<longrightarrow>
                e = ''/'' \<or> (e = inc \<and> CallInclude inc True \<notin> set calls)) \<and>
           (\<forall>ks. range_order (exclude eps) ks \<longrightarrow>
              (\<exists>s. String_eps ks = Inr s \<and>
                 s = concat (map (\<lambda>p. p @ [CHR 0x0A]) ks) @ [CHR 0x0A] \<and>
                 set ks = dom (exclude eps) \<and>
                 ((\<forall>k\<in>set ks. CHR 0x0A \<notin> set k) \<longrightarrow>
                    rendered_lines s = ks \<and>
                    (\<forall>l\<in>set (rendered_lines s). \<forall>inc\<in>set (include_list eps).
                       dir_prefix l inc \<longrightarrow>
                         l = ''/'' \<or> (l = inc \<and> CallInclude inc True \<notin> set calls)))))"
proof -
  from eps_inv_run_calls[OF eps_inv_New assms]
  obtain eps where r: "run_calls NewExcludePaths calls = Some eps"
    and inv: "eps_inv eps (call_includes calls)" by auto
  have safe: "e = ''/'' \<or> (e = inc \<and> CallInclude inc True \<notin> set calls)"
    if e: "e \<in> dom (exclude eps)" and i: "inc \<in> set (include_list eps)" and dp: "dir_prefix e inc"
    for e inc
  proof (cases "e = ''/''")
    case True
    then show ?thesis by simp
  next
    case False
    from i eps_inv_incl[OF inv] obtain d where h: "(inc, d) \<in> set (call_includes calls)"
      by auto
    from eps_inv_safe[OF inv e h dp] False have eq: "e = inc" by simp
    have "CallInclude inc True \<notin> set calls"
    proof
      assume "CallInclude inc True \<in> set calls"
      then have "(inc, True) \<in> set (call_includes calls)" by (simp add: call_includes_set)
      from eps_inv_safe[OF inv e this dp] False show False by simp
    qed
    with eq show ?thesis by simp
  qed
  have rendered: "\<exists>s. String_eps ks = Inr s \<and>
                 s = concat (map (\<lambda>p. p @ [CHR 0x0A]) ks) @ [CHR 0x0A] \<and>
                 set ks = dom (exclude eps) \<and>
                 ((\<forall>k\<in>set ks. CHR 0x0A \<notin> set k) \<longrightarrow>
                    rendered_lines s = ks \<and>
                    (\<forall>l\<in>set (rendered_lines s). \<forall>inc\<in>set (include_list eps).
                       dir_prefix l inc \<longrightarrow>
                         l = ''/'' \<or> (l = inc \<and> CallInclude inc True \<notin> set calls)))"
    if ro: "range_order (exclude eps) ks" for ks
  proof -
    let ?s = "concat (map (\<lambda>p. p @ [CHR 0x0A]) ks) @ [CHR 0x0A]"
    from ro have keys: "set ks = dom (exclude eps)" by (simp add: range_order_def)
    have lines: "rendered_lines ?s = ks \<and>
                    (\<forall>l\<in>set (rendered_lines ?s). \<forall>inc\<in>set (include_list eps).
                       dir_prefix l inc \<longrightarrow>
                         l = ''/'' \<or> (l = inc \<and> CallInclude inc True \<notin> set calls))"
      if nl: "\<forall>k\<in>set ks. CHR 0x0A \<notin> set k"
    proof -
      have eq: "rendered_lines ?s = ks" using nl by (rule rendered_lines_keys)
      show ?thesis unfolding eq using keys safe by blast
    qed
    show ?thesis
      using String_eps_eq[of ks] keys lines by blast
  qed
  from r safe rendered show ?thesis by blast
qed

theorem subtree_safety_clean_paths_witness:
  "is_clean_abs ''/usr'' \<and> is_clean_abs ''/usr/bin'' \<and> is_clean_abs ''/usr/lib'' \<and>
   is_clean_abs ''/usr/bin/ls'' \<and>
   run_calls NewExcludePaths
     [CallExclude ''/usr'', CallExclude ''/usr/bin'', CallExclude ''/usr/lib'',
      CallInclude ''/usr/bin/ls'' False] =
     Some \<lparr>exclude = [''/usr/lib'' \<mapsto> True], include_list = [''/usr/bin/ls'']\<rparr> \<and>
   range_order [''/usr/lib'' \<mapsto> True] [''/usr/lib''] \<and>
   CHR 0x0A \<notin> set ''/usr/lib'' \<and>
   (\<exists>eps. run_calls NewExcludePaths
        [CallExclude ''/usr'', CallExclude ''/usr/bin'', CallExclude ''/usr/lib'',
         CallInclude ''/usr/bin/ls'' False] = Some eps \<and>
      (\<forall>e\<in>dom (exclude eps). \<forall>inc\<in>set (include_list eps).
         dir_prefix e inc \<longrightarrow>
           e = ''/'' \<or> (e = inc \<and> CallInclude inc True \<notin>
             set [CallExclude ''/usr'', CallExclude ''/usr/bin'', CallExclude ''/usr/lib'',
                  CallInclude ''/usr/bin/ls'' False]))) \<and>
   (\<exists>s. String_eps [''/usr/lib''] = Inr s \<and>
      s = ''/usr/lib'' @ [CHR 0x0A, CHR 0x0A] \<and>
      rendered_lines s = [''/usr/lib''] \<and>
      (\<forall>l\<in>set (rendered_lines s). \<forall>inc\<in>set [''/usr/bin/ls''].
         dir_prefix l inc \<longrightarrow>
           l = ''/'' \<or> (l = inc \<and> CallInclude inc True \<notin>
             set [CallExclude ''/usr'', CallExclude ''/usr/bin'', CallExclude ''/usr/lib'',
                  CallInclude ''/usr/bin/ls'' False])))"
proof -
  let ?calls = "[CallExclude ''/usr'', CallExclude ''/usr/bin'', CallExclude ''/usr/lib'',
              CallInclude ''/usr/bin/ls'' False]"
  let ?eps = "\<lparr>exclude = [''/usr/lib'' \<mapsto> True], include_list = [''/usr/bin/ls'']\<rparr>"
  have h: "\<forall>c\<in>set ?calls. is_clean_abs (call_path c)"
    by (simp add: path_eval)
  then have c: "is_clean_abs ''/usr'' \<and> is_clean_abs ''/usr/bin'' \<and> is_clean_abs ''/usr/lib'' \<and>
     is_clean_abs ''/usr/bin/ls''" by simp
  have run: "run_calls NewExcludePaths ?calls = Some ?eps"
    by (simp add: path_eval eps_eval)
  have ro: "range_order [''/usr/lib'' \<mapsto> True] [''/usr/lib'']"
    by (simp add: range_order_def)
  have nl: "CHR 0x0A \<notin> set ''/usr/lib''" by simp
  from subtree_safety_clean_paths[OF h] obtain eps where
    r: "run_calls NewExcludePaths ?calls = Some eps"
    and inv: "\<forall>e\<in>dom (exclude eps). \<forall>inc\<in>set (include_list eps).
         dir_prefix e inc \<longrightarrow>
           e = ''/'' \<or> (e = inc \<and> CallInclude inc True \<notin> set ?calls)"
    and ren: "\<forall>ks. range_order (exclude eps) ks \<longrightarrow>
              (\<exists>s. String_eps ks = Inr s \<and>
                 s = concat (map (\<lambda>p. p @ [CHR 0x0A]) ks) @ [CHR 0x0A] \<and>
                 set ks = dom (exclude eps) \<and>
                 ((\<forall>k\<in>set ks. CHR 0x0A \<notin> set k) \<longrightarrow>
                    rendered_lines s = ks \<and>
                    (\<forall>l\<in>set (rendered_lines s). \<forall>inc\<in>set (include_list eps).
                       dir_prefix l inc \<longrightarrow>
                         l = ''/'' \<or> (l = inc \<and> CallInclude inc True \<notin> set ?calls))))"
    by blast
  from r run have eps: "eps = ?eps" by simp
  then have inc: "include_list eps = [''/usr/bin/ls'']" by simp
  have ro': "range_order (exclude eps) [''/usr/lib'']" using ro eps by simp
  from ren[rule_format, OF ro'] obtain s where
    s1: "String_eps [''/usr/lib''] = Inr s"
    and s2: "s = concat (map (\<lambda>p. p @ [CHR 0x0A]) [''/usr/lib'']) @ [CHR 0x0A]"
    and imp: "(\<forall>k\<in>set [''/usr/lib'']. CHR 0x0A \<notin> set k) \<longrightarrow>
                    rendered_lines s = [''/usr/lib''] \<and>
                    (\<forall>l\<in>set (rendered_lines s). \<forall>inc\<in>set (include_list eps).
                       dir_prefix l inc \<longrightarrow>
                         l = ''/'' \<or> (l = inc \<and> CallInclude inc True \<notin> set ?calls))"
    by blast
  have nl': "\<forall>k\<in>set [''/usr/lib'']. CHR 0x0A \<notin> set k" by simp
  from imp nl' have l1: "rendered_lines s = [''/usr/lib'']"
    and l2: "\<forall>l\<in>set (rendered_lines s). \<forall>inc\<in>set (include_list eps).
                       dir_prefix l inc \<longrightarrow>
                         l = ''/'' \<or> (l = inc \<and> CallInclude inc True \<notin> set ?calls)"
    by blast+
  have s3: "s = ''/usr/lib'' @ [CHR 0x0A, CHR 0x0A]" using s2 by simp
  have "\<exists>s. String_eps [''/usr/lib''] = Inr s \<and>
      s = ''/usr/lib'' @ [CHR 0x0A, CHR 0x0A] \<and>
      rendered_lines s = [''/usr/lib''] \<and>
      (\<forall>l\<in>set (rendered_lines s). \<forall>inc\<in>set [''/usr/bin/ls''].
         dir_prefix l inc \<longrightarrow>
           l = ''/'' \<or> (l = inc \<and> CallInclude inc True \<notin> set ?calls))"
    using s1 s3 l1 l2[unfolded inc] by blast
  moreover have "\<exists>eps. run_calls NewExcludePaths ?calls = Some eps \<and>
      (\<forall>e\<in>dom (exclude eps). \<forall>inc\<in>set (include_list eps).
         dir_prefix e inc \<longrightarrow>
           e = ''/'' \<or> (e = inc \<and> CallInclude inc True \<notin> set ?calls))"
    using r inv by blast
  ultimately show ?thesis using c run ro nl by blast
qed

text \<open>The claim as it is written fails in three ways, all in one sequence of
  calls: \<^verbatim>\<open>AddExclude\<close> of \<open>/\<close>, of \<open>/a\<close> and of the directory \<open>usr\<close> below a
  directory whose name is \<open>x\<close> and a newline and nothing else, then
  \<^verbatim>\<open>AddInclude("/a", false)\<close> and \<^verbatim>\<open>AddInclude("/usr/bin", true)\<close>. The root and
  \<open>/a\<close> stay excluded, and both are prefixes of the included \<open>/a\<close>. The third
  path is above no included path, but \<^verbatim>\<open>String\<close> writes it raw: the rendered
  text has the line \<open>/usr\<close>, which is not an excluded path and lies strictly
  above the included \<open>/usr/bin\<close>.\<close>

theorem subtree_safety_counterexample:
  "is_clean_abs ''/'' \<and> is_clean_abs ''/a'' \<and> is_clean_abs ''/usr/bin'' \<and>
   is_clean_abs (''/x'' @ CHR 0x0A # ''/usr'') \<and>
   run_calls NewExcludePaths
     [CallExclude ''/'', CallExclude ''/a'', CallExclude (''/x'' @ CHR 0x0A # ''/usr''),
      CallInclude ''/a'' False, CallInclude ''/usr/bin'' True] \<noteq> None \<and>
   exclude (the (run_calls NewExcludePaths
     [CallExclude ''/'', CallExclude ''/a'', CallExclude (''/x'' @ CHR 0x0A # ''/usr''),
      CallInclude ''/a'' False, CallInclude ''/usr/bin'' True])) ''/'' = Some True \<and>
   exclude (the (run_calls NewExcludePaths
     [CallExclude ''/'', CallExclude ''/a'', CallExclude (''/x'' @ CHR 0x0A # ''/usr''),
      CallInclude ''/a'' False, CallInclude ''/usr/bin'' True])) ''/a'' = Some True \<and>
   exclude (the (run_calls NewExcludePaths
     [CallExclude ''/'', CallExclude ''/a'', CallExclude (''/x'' @ CHR 0x0A # ''/usr''),
      CallInclude ''/a'' False, CallInclude ''/usr/bin'' True])) ''/usr'' = None \<and>
   include_list (the (run_calls NewExcludePaths
     [CallExclude ''/'', CallExclude ''/a'', CallExclude (''/x'' @ CHR 0x0A # ''/usr''),
      CallInclude ''/a'' False, CallInclude ''/usr/bin'' True])) = [''/a'', ''/usr/bin''] \<and>
   dir_prefix ''/'' ''/a'' \<and> dir_prefix ''/a'' ''/a'' \<and>
   range_order (exclude (the (run_calls NewExcludePaths
     [CallExclude ''/'', CallExclude ''/a'', CallExclude (''/x'' @ CHR 0x0A # ''/usr''),
      CallInclude ''/a'' False, CallInclude ''/usr/bin'' True])))
     [''/'', ''/a'', ''/x'' @ CHR 0x0A # ''/usr''] \<and>
   String_eps [''/'', ''/a'', ''/x'' @ CHR 0x0A # ''/usr''] =
     Inr (''/'' @ CHR 0x0A # ''/a'' @ CHR 0x0A # ''/x'' @ CHR 0x0A # ''/usr'' @ [CHR 0x0A, CHR 0x0A]) \<and>
   rendered_lines
     (''/'' @ CHR 0x0A # ''/a'' @ CHR 0x0A # ''/x'' @ CHR 0x0A # ''/usr'' @ [CHR 0x0A, CHR 0x0A]) =
     [''/'', ''/a'', ''/x'', ''/usr''] \<and>
   strict_ancestor ''/usr'' ''/usr/bin'' \<and> dir_prefix ''/usr'' ''/usr/bin''"
proof -
  let ?calls = "[CallExclude ''/'', CallExclude ''/a'', CallExclude (''/x'' @ CHR 0x0A # ''/usr''),
      CallInclude ''/a'' False, CallInclude ''/usr/bin'' True]"
  have run: "run_calls NewExcludePaths ?calls =
      Some \<lparr>exclude = [''/'' \<mapsto> True, ''/a'' \<mapsto> True, (''/x'' @ CHR 0x0A # ''/usr'') \<mapsto> True],
            include_list = [''/a'', ''/usr/bin'']\<rparr>"
    by (simp add: path_eval eps_eval)
  have ro: "range_order [''/'' \<mapsto> True, ''/a'' \<mapsto> True, (''/x'' @ CHR 0x0A # ''/usr'') \<mapsto> True]
      [''/'', ''/a'', ''/x'' @ CHR 0x0A # ''/usr'']"
    by (auto simp: range_order_def)
  have paths: "is_clean_abs ''/'' \<and> is_clean_abs ''/a'' \<and> is_clean_abs ''/usr/bin'' \<and>
     is_clean_abs (''/x'' @ CHR 0x0A # ''/usr'') \<and>
     dir_prefix ''/'' ''/a'' \<and> dir_prefix ''/a'' ''/a'' \<and>
     strict_ancestor ''/usr'' ''/usr/bin'' \<and> dir_prefix ''/usr'' ''/usr/bin''"
    by (simp add: path_eval)
  have rendered: "String_eps [''/'', ''/a'', ''/x'' @ CHR 0x0A # ''/usr''] =
     Inr (''/'' @ CHR 0x0A # ''/a'' @ CHR 0x0A # ''/x'' @ CHR 0x0A # ''/usr'' @ [CHR 0x0A, CHR 0x0A])"
    by (simp add: String_eps_eq)
  have lines: "rendered_lines
     (''/'' @ CHR 0x0A # ''/a'' @ CHR 0x0A # ''/x'' @ CHR 0x0A # ''/usr'' @ [CHR 0x0A, CHR 0x0A]) =
     [''/'', ''/a'', ''/x'', ''/usr'']"
    by (simp add: rendered_lines_def)
  show ?thesis
    unfolding run using ro paths rendered lines by simp
qed

text \<open>
  Claim C6 (\<^verbatim>\<open>AddExclude\<close>), as the code has it. The call leaves the
  \<^verbatim>\<open>ExcludePaths\<close> unchanged when some included path has \<open>p\<close> as a prefix of its
  string, and otherwise sets \<open>p\<close> in the exclude map and changes nothing else;
  the include list is the same in both cases. Among absolute, normalized paths
  a prefix in the directory hierarchy is a prefix of the string, so the call
  changes nothing when an included path lies at or below \<open>p\<close>.
\<close>

theorem AddExclude_string_prefix:
  "AddExclude eps p =
     (if \<exists>inc\<in>set (include_list eps). prefix p inc then eps
      else eps\<lparr>exclude := (exclude eps)(p \<mapsto> True)\<rparr>) \<and>
   include_list (AddExclude eps p) = include_list eps \<and>
   (is_clean_abs p \<and> inc \<in> set (include_list eps) \<and> is_clean_abs inc \<and> dir_prefix p inc
      \<longrightarrow> AddExclude eps p = eps)"
proof (intro conjI impI)
  show eq: "AddExclude eps p =
     (if \<exists>inc\<in>set (include_list eps). prefix p inc then eps
      else eps\<lparr>exclude := (exclude eps)(p \<mapsto> True)\<rparr>)"
    by (simp add: AddExclude_def has_prefixed_include_iff)
  show "include_list (AddExclude eps p) = include_list eps"
    by (simp add: AddExclude_def)
  assume a: "is_clean_abs p \<and> inc \<in> set (include_list eps) \<and> is_clean_abs inc \<and> dir_prefix p inc"
  then obtain es cs where es: "\<forall>c\<in>set es. good_elem c" "p = abs_path es"
    and cs: "\<forall>c\<in>set cs. good_elem c" "inc = abs_path cs"
    using clean_abs_repr by blast
  from a have "prefix es cs" using es cs by (simp add: dir_prefix_abs_path)
  then have "prefix p inc" using es cs by (simp add: prefix_abs_path)
  with a have "\<exists>inc\<in>set (include_list eps). prefix p inc" by blast
  then show "AddExclude eps p = eps" using eq by simp
qed

theorem AddExclude_string_prefix_witness:
  "AddExclude \<lparr>exclude = Map.empty, include_list = [''/usr/bin/ls'']\<rparr> ''/usr'' =
     \<lparr>exclude = Map.empty, include_list = [''/usr/bin/ls'']\<rparr> \<and>
   is_clean_abs ''/usr'' \<and> is_clean_abs ''/usr/bin/ls'' \<and> dir_prefix ''/usr'' ''/usr/bin/ls'' \<and>
   AddExclude \<lparr>exclude = Map.empty, include_list = [''/usr/bin/ls'']\<rparr> ''/etc'' =
     \<lparr>exclude = [''/etc'' \<mapsto> True], include_list = [''/usr/bin/ls'']\<rparr>"
  using AddExclude_string_prefix[of "\<lparr>exclude = Map.empty, include_list = [''/usr/bin/ls'']\<rparr>" "''/usr''" "''/usr/bin/ls''"]
    AddExclude_string_prefix[of "\<lparr>exclude = Map.empty, include_list = [''/usr/bin/ls'']\<rparr>" "''/etc''" "''/usr/bin/ls''"]
  by (simp add: path_eval)

text \<open>The test is on strings, not on the hierarchy: with \<open>/usr/bin\<close> included,
  \<^verbatim>\<open>AddExclude("/usr/b")\<close> adds nothing, though \<open>/usr/b\<close> is not above \<open>/usr/bin\<close>.\<close>

theorem AddExclude_dir_prefix_counterexample:
  "run_calls NewExcludePaths [CallInclude ''/usr/bin'' True] =
     Some \<lparr>exclude = Map.empty, include_list = [''/usr/bin'']\<rparr> \<and>
   \<not> dir_prefix ''/usr/b'' ''/usr/bin'' \<and>
   AddExclude \<lparr>exclude = Map.empty, include_list = [''/usr/bin'']\<rparr> ''/usr/b'' =
     \<lparr>exclude = Map.empty, include_list = [''/usr/bin'']\<rparr>"
  by (simp add: path_eval eps_eval)

text \<open>
  Claim C7 (include list), as the code has it. \<^verbatim>\<open>AddInclude\<close> appends its
  argument and nothing ever removes a path from the include list: after a
  sequence of calls the list holds the arguments of all \<^verbatim>\<open>AddInclude\<close> calls in
  call order, redundant ones too; and on absolute, normalized paths every call
  returns.
\<close>

theorem include_list_keeps_every_call:
  "(run_calls eps calls = Some eps' \<longrightarrow>
      include_list eps' = include_list eps @ map fst (call_includes calls)) \<and>
   ((\<forall>c\<in>set calls. is_clean_abs (call_path c)) \<longrightarrow> run_calls NewExcludePaths calls \<noteq> None)"
proof (intro conjI impI)
  assume "run_calls eps calls = Some eps'"
  then show "include_list eps' = include_list eps @ map fst (call_includes calls)"
    by (rule run_calls_include_list)
next
  assume "\<forall>c\<in>set calls. is_clean_abs (call_path c)"
  from eps_inv_run_calls[OF eps_inv_New this] show "run_calls NewExcludePaths calls \<noteq> None"
    by auto
qed

theorem include_list_keeps_every_call_witness:
  "run_calls NewExcludePaths [CallInclude ''/usr'' True, CallExclude ''/etc'', CallInclude ''/usr/bin'' True]
     = Some \<lparr>exclude = [''/etc'' \<mapsto> True], include_list = [''/usr'', ''/usr/bin'']\<rparr> \<and>
   include_list \<lparr>exclude = [''/etc'' \<mapsto> True], include_list = [''/usr'', ''/usr/bin'']\<rparr> =
     include_list NewExcludePaths @
     map fst (call_includes [CallInclude ''/usr'' True, CallExclude ''/etc'', CallInclude ''/usr/bin'' True]) \<and>
   is_clean_abs ''/usr'' \<and> is_clean_abs ''/etc'' \<and> is_clean_abs ''/usr/bin'' \<and>
   run_calls NewExcludePaths [CallInclude ''/usr'' True, CallExclude ''/etc'', CallInclude ''/usr/bin'' True] \<noteq> None"
proof -
  have r: "run_calls NewExcludePaths [CallInclude ''/usr'' True, CallExclude ''/etc'', CallInclude ''/usr/bin'' True]
     = Some \<lparr>exclude = [''/etc'' \<mapsto> True], include_list = [''/usr'', ''/usr/bin'']\<rparr>"
    by (simp add: path_eval eps_eval)
  have h: "\<forall>c\<in>set [CallInclude ''/usr'' True, CallExclude ''/etc'', CallInclude ''/usr/bin'' True].
      is_clean_abs (call_path c)"
    by (simp add: path_eval)
  then have c: "is_clean_abs ''/usr'' \<and> is_clean_abs ''/etc'' \<and> is_clean_abs ''/usr/bin''" by simp
  show ?thesis
    using r h c include_list_keeps_every_call[of NewExcludePaths
      "[CallInclude ''/usr'' True, CallExclude ''/etc'', CallInclude ''/usr/bin'' True]"
      "\<lparr>exclude = [''/etc'' \<mapsto> True], include_list = [''/usr'', ''/usr/bin'']\<rparr>"]
    by blast
qed

text \<open>A directory and a directory below it are both kept.\<close>

theorem include_minimality_counterexample:
  "run_calls NewExcludePaths [CallInclude ''/usr'' True, CallInclude ''/usr/bin'' True] =
     Some \<lparr>exclude = Map.empty, include_list = [''/usr'', ''/usr/bin'']\<rparr> \<and>
   strict_ancestor ''/usr'' ''/usr/bin''"
  by (simp add: path_eval eps_eval)

section \<open>Rendering and MakeSquashfs\<close>

lemmas io_defs = ioutil_TempFile_def File_WriteString_def os_Remove_def cmd_Run_def
  os_Open_def log_def

lemma build_image_trace:
  assumes "toExclude \<noteq> []"
  shows "\<exists>new. trace (snd (build_image x tempdir rootfs toExclude f w)) = trace w @ new \<and>
           (\<forall>argv. EvExec argv \<in> set new \<longrightarrow>
              (\<exists>g. argv = [''mksquashfs'', rootfs, g, ''-ef'', f]))"
  using assms
  by (auto simp: build_image_def io_defs Let_def split: sum.splits option.splits prod.splits node.splits)

lemma build_image_success_trace:
  assumes "toExclude \<noteq> []" "TempFile_res x tempdir ''stacker-squashfs-img-'' = Inr g"
  shows "trace (snd (build_image x tempdir rootfs toExclude f w)) =
           trace w @ [EvTempFile tempdir ''stacker-squashfs-img-'', EvRemove g,
                      EvExec [''mksquashfs'', rootfs, g, ''-ef'', f], EvRemove g]"
  using assms
  by (auto simp: build_image_def io_defs Let_def split: sum.splits option.splits prod.splits node.splits)

lemma MakeSquashfs_unfold:
  "MakeSquashfs x tempdir rootfs (Some eps) w =
     (let toExclude = concat (map (\<lambda>p. p @ [CHR 0x0A]) (map_keys x (exclude eps))) @ [CHR 0x0A]
      in case ioutil_TempFile x tempdir ''stacker-squashfs-exclude-'' w of
           (Inl e, w1) \<Rightarrow> (Inl (Errno e), w1)
         | (Inr excludes, w1) \<Rightarrow>
             (case File_WriteString x excludes toExclude w1 of
                (Some e, w2) \<Rightarrow> (Inl (Errno e), os_Remove excludes w2)
              | (None, w2) \<Rightarrow>
                  (case build_image x tempdir rootfs toExclude excludes w2 of
                     (r, w3) \<Rightarrow> (r, os_Remove excludes w3))))"
  by (simp add: MakeSquashfs_def String_eps_eq Let_def)

text \<open>
  Claim C10. \<^verbatim>\<open>String\<close> never fails and returns the excluded paths, a newline
  after each, and one more newline: the text ends with a newline and is not
  empty, also for an empty exclude map. So \<^verbatim>\<open>MakeSquashfs\<close> with an
  \<^verbatim>\<open>ExcludePaths\<close> that is not nil takes the branch that creates the exclude
  file: whenever it runs \<^verbatim>\<open>mksquashfs\<close>, the arguments end with \<^verbatim>\<open>-ef\<close> and the
  name of a file to which the text was written; and when the two temporary
  files can be created and written, it does run \<^verbatim>\<open>mksquashfs\<close> so.
\<close>

theorem MakeSquashfs_always_passes_ef:
  "(\<exists>s. String_eps ks = Inr s \<and> s \<noteq> [] \<and> suffix [CHR 0x0A] s \<and>
        s = concat (map (\<lambda>p. p @ [CHR 0x0A]) ks) @ [CHR 0x0A]) \<and>
   (\<exists>new. trace (snd (MakeSquashfs x tempdir rootfs (Some eps) w)) = trace w @ new \<and>
      (\<forall>argv. EvExec argv \<in> set new \<longrightarrow>
         (\<exists>f g. argv = [''mksquashfs'', rootfs, g, ''-ef'', f] \<and>
            EvWriteString f (concat (map (\<lambda>p. p @ [CHR 0x0A]) (map_keys x (exclude eps)))
                               @ [CHR 0x0A]) \<in> set new))) \<and>
   (TempFile_res x tempdir ''stacker-squashfs-exclude-'' = Inr f \<and>
    WriteString_err x f = None \<and>
    TempFile_res x tempdir ''stacker-squashfs-img-'' = Inr g \<longrightarrow>
      trace (snd (MakeSquashfs x tempdir rootfs (Some eps) w)) =
        trace w @
        [EvTempFile tempdir ''stacker-squashfs-exclude-'',
         EvWriteString f (concat (map (\<lambda>p. p @ [CHR 0x0A]) (map_keys x (exclude eps)))
                            @ [CHR 0x0A]),
         EvTempFile tempdir ''stacker-squashfs-img-'', EvRemove g,
         EvExec [''mksquashfs'', rootfs, g, ''-ef'', f], EvRemove g, EvRemove f])"
proof (intro conjI impI)
  show "\<exists>s. String_eps ks = Inr s \<and> s \<noteq> [] \<and> suffix [CHR 0x0A] s \<and>
        s = concat (map (\<lambda>p. p @ [CHR 0x0A]) ks) @ [CHR 0x0A]"
    by (simp add: String_eps_eq suffix_def)
next
  let ?text = "concat (map (\<lambda>p. p @ [CHR 0x0A]) (map_keys x (exclude eps))) @ [CHR 0x0A]"
  have ne: "?text \<noteq> []" by simp
  show "\<exists>new. trace (snd (MakeSquashfs x tempdir rootfs (Some eps) w)) = trace w @ new \<and>
      (\<forall>argv. EvExec argv \<in> set new \<longrightarrow>
         (\<exists>f g. argv = [''mksquashfs'', rootfs, g, ''-ef'', f] \<and> EvWriteString f ?text \<in> set new))"
  proof (cases "TempFile_res x tempdir ''stacker-squashfs-exclude-''")
    case (Inl e)
    then show ?thesis by (simp add: MakeSquashfs_unfold io_defs Let_def del: append_eq_append_conv)
  next
    case (Inr f)
    show ?thesis
    proof (cases "WriteString_err x f")
      case (Some e)
      then show ?thesis using Inr
        by (simp add: MakeSquashfs_unfold io_defs Let_def)
    next
      case None
      define w2 where "w2 = snd (File_WriteString x f ?text (snd (ioutil_TempFile x tempdir ''stacker-squashfs-exclude-'' w)))"
      have t2: "trace w2 = trace w @ [EvTempFile tempdir ''stacker-squashfs-exclude-'', EvWriteString f ?text]"
        using Inr None by (simp add: w2_def io_defs)
      from build_image_trace[OF ne, of x tempdir rootfs f w2]
      obtain new where n: "trace (snd (build_image x tempdir rootfs ?text f w2)) = trace w2 @ new"
        "\<forall>argv. EvExec argv \<in> set new \<longrightarrow> (\<exists>g. argv = [''mksquashfs'', rootfs, g, ''-ef'', f])"
        by blast
      have m: "MakeSquashfs x tempdir rootfs (Some eps) w =
          (fst (build_image x tempdir rootfs ?text f w2),
           os_Remove f (snd (build_image x tempdir rootfs ?text f w2)))"
        using Inr None
        by (simp add: MakeSquashfs_unfold w2_def ioutil_TempFile_def File_WriteString_def Let_def split: prod.splits)
      have "trace (snd (MakeSquashfs x tempdir rootfs (Some eps) w)) =
          trace w @ ([EvTempFile tempdir ''stacker-squashfs-exclude-'', EvWriteString f ?text] @ new @ [EvRemove f])"
        using n(1) t2 by (simp add: m os_Remove_def log_def)
      moreover have "\<forall>argv. EvExec argv \<in> set ([EvTempFile tempdir ''stacker-squashfs-exclude-'', EvWriteString f ?text] @ new @ [EvRemove f]) \<longrightarrow>
         (\<exists>f' g. argv = [''mksquashfs'', rootfs, g, ''-ef'', f'] \<and> EvWriteString f' ?text \<in> set ([EvTempFile tempdir ''stacker-squashfs-exclude-'', EvWriteString f ?text] @ new @ [EvRemove f]))"
        using n(2) by auto
      ultimately show ?thesis by blast
    qed
  qed
next
  let ?text = "concat (map (\<lambda>p. p @ [CHR 0x0A]) (map_keys x (exclude eps))) @ [CHR 0x0A]"
  have ne: "?text \<noteq> []" by simp
  assume a: "TempFile_res x tempdir ''stacker-squashfs-exclude-'' = Inr f \<and>
    WriteString_err x f = None \<and> TempFile_res x tempdir ''stacker-squashfs-img-'' = Inr g"
  define w2 where "w2 = snd (File_WriteString x f ?text (snd (ioutil_TempFile x tempdir ''stacker-squashfs-exclude-'' w)))"
  have t2: "trace w2 = trace w @ [EvTempFile tempdir ''stacker-squashfs-exclude-'', EvWriteString f ?text]"
    using a by (simp add: w2_def io_defs)
  have m: "MakeSquashfs x tempdir rootfs (Some eps) w =
      (fst (build_image x tempdir rootfs ?text f w2),
       os_Remove f (snd (build_image x tempdir rootfs ?text f w2)))"
    using a
    by (simp add: MakeSquashfs_unfold w2_def ioutil_TempFile_def File_WriteString_def Let_def split: prod.splits)
  show "trace (snd (MakeSquashfs x tempdir rootfs (Some eps) w)) =
        trace w @
        [EvTempFile tempdir ''stacker-squashfs-exclude-'', EvWriteString f ?text,
         EvTempFile tempdir ''stacker-squashfs-img-'', EvRemove g,
         EvExec [''mksquashfs'', rootfs, g, ''-ef'', f], EvRemove g, EvRemove f]"
    using a t2 build_image_success_trace[OF ne, of x tempdir g rootfs f w2]
    by (simp add: m os_Remove_def log_def)
qed

lemmas world_eval = io_defs build_image_def MakeSquashfs_def String_eps_def
  Buffer_WriteString_def example_ext_def example_world_def NewExcludePaths_def

theorem MakeSquashfs_always_passes_ef_witness:
  "String_eps [] = Inr [CHR 0x0A] \<and>
   TempFile_res (example_ext None []) ''/oci'' ''stacker-squashfs-exclude-''
     = Inr ''/oci/stacker-squashfs-exclude-1'' \<and>
   WriteString_err (example_ext None []) ''/oci/stacker-squashfs-exclude-1'' = None \<and>
   TempFile_res (example_ext None []) ''/oci'' ''stacker-squashfs-img-''
     = Inr ''/oci/stacker-squashfs-img-1'' \<and>
   trace (snd (MakeSquashfs (example_ext None []) ''/oci'' ''/b/rootfs'' (Some NewExcludePaths)
                 example_world)) =
     [EvTempFile ''/oci'' ''stacker-squashfs-exclude-'',
      EvWriteString ''/oci/stacker-squashfs-exclude-1'' [CHR 0x0A],
      EvTempFile ''/oci'' ''stacker-squashfs-img-'',
      EvRemove ''/oci/stacker-squashfs-img-1'',
      EvExec [''mksquashfs'', ''/b/rootfs'', ''/oci/stacker-squashfs-img-1'', ''-ef'',
              ''/oci/stacker-squashfs-exclude-1''],
      EvRemove ''/oci/stacker-squashfs-img-1'',
      EvRemove ''/oci/stacker-squashfs-exclude-1'']"
proof -
  have h: "TempFile_res (example_ext None []) ''/oci'' ''stacker-squashfs-exclude-''
       = Inr ''/oci/stacker-squashfs-exclude-1'' \<and>
     WriteString_err (example_ext None []) ''/oci/stacker-squashfs-exclude-1'' = None \<and>
     TempFile_res (example_ext None []) ''/oci'' ''stacker-squashfs-img-''
       = Inr ''/oci/stacker-squashfs-img-1''"
    by (simp add: example_ext_def)
  have k: "map_keys (example_ext None []) (exclude NewExcludePaths) = []"
    by (simp add: example_ext_def NewExcludePaths_def)
  have t: "trace example_world = []" by (simp add: example_world_def)
  from MakeSquashfs_always_passes_ef[of "[]" "example_ext None []" "''/oci''" "''/b/rootfs''"
      NewExcludePaths example_world "''/oci/stacker-squashfs-exclude-1''"
      "''/oci/stacker-squashfs-img-1''"]
  show ?thesis using h k t by simp
qed

section \<open>GenerateSquashfsLayer\<close>

lemma diff_loop_all_Same:
  "\<forall>d\<in>set ds. diff_Type d = Same \<Longrightarrow>
   \<exists>eps. diff_loop x rootfsPath ds st = Some (None, st\<lparr>paths := eps\<rparr>)"
proof (induction ds arbitrary: st)
  case Nil
  have "st = st\<lparr>paths := paths st\<rparr>" by simp
  then show ?case by (metis diff_loop.simps(1))
next
  case (Cons d ds)
  let ?st1 = "st\<lparr>paths := AddExclude (paths st) (path_Join [rootfsPath, diff_Path d])\<rparr>"
  have step: "diff_step x rootfsPath d st = Some (None, ?st1)"
    using Cons.prems by (simp add: diff_step_def)
  from Cons.IH[of ?st1] Cons.prems
  obtain eps where "diff_loop x rootfsPath ds ?st1 = Some (None, ?st1\<lparr>paths := eps\<rparr>)" by auto
  then have "diff_loop x rootfsPath (d # ds) st = Some (None, st\<lparr>paths := eps\<rparr>)"
    using step by simp
  then show ?case by blast
qed

lemma empty_walk_panics:
  assumes "ReadBundleMeta_err x = None" and "Walk (From (bundle_meta w)) = []"
  shows "GenerateSquashfsLayer x name author bundlepath ocidir w =
           Some (Some (Panic ''empty DescriptorPath''), w)"
  using assms
  by (simp add: GenerateSquashfsLayer_def ReadBundleMeta_def DescriptorPath_Descriptor_def)

text \<open>
  Claim C4. When the bundle meta can be read and its \<^verbatim>\<open>From.Walk\<close> is not empty
  (on an empty one \<^verbatim>\<open>Descriptor()\<close> panics before there is a diff), the old
  manifest and the walk can be read and every entry of the filtered diff is
  \<^verbatim>\<open>Same\<close>, \<^verbatim>\<open>GenerateSquashfsLayer\<close> returns nil and leaves the world as it was:
  no command was run, no blob was added, the bundle meta is the same and the
  old manifest is still there under its name.
\<close>

theorem empty_diff_no_mutation:
  assumes "ReadBundleMeta_err x = None"
    and "Walk (From (bundle_meta w)) \<noteq> []"
    and "os_Open x (path_Join [bundlepath,
           strings_Replace (Digest (last (Walk (From (bundle_meta w)))))
             (CHR '':'') (CHR ''_'') 1 @ ''.mtree'']) w = Inr mfh"
    and "ParseSpec_err x = None"
    and "Walk_err x (path_Join [bundlepath, ''rootfs'']) = None"
    and "CompareSame_res x = Inr diffs"
    and "\<forall>d\<in>set (FilterDeltas x diffs). diff_Type d = Same"
  shows "GenerateSquashfsLayer x name author bundlepath ocidir w = Some (None, w) \<and>
         files w (path_Join [bundlepath,
           strings_Replace (Digest (last (Walk (From (bundle_meta w)))))
             (CHR '':'') (CHR ''_'') 1 @ ''.mtree'']) = Some mfh"
proof -
  let ?st0 = "initial_state w"
  from diff_loop_all_Same[OF assms(7), of x "path_Join [bundlepath, ''rootfs'']" ?st0]
  obtain eps where loop: "diff_loop x (path_Join [bundlepath, ''rootfs'']) (FilterDeltas x diffs) ?st0
      = Some (None, ?st0\<lparr>paths := eps\<rparr>)" by blast
  have "GenerateSquashfsLayer x name author bundlepath ocidir w = Some (None, w)"
    using assms(1-6) loop
    by (simp add: GenerateSquashfsLayer_def ReadBundleMeta_def DescriptorPath_Descriptor_def
                  Let_def initial_state_def)
  moreover have "files w (path_Join [bundlepath,
           strings_Replace (Digest (last (Walk (From (bundle_meta w)))))
             (CHR '':'') (CHR ''_'') 1 @ ''.mtree'']) = Some mfh"
    using assms(3) by (auto simp: os_Open_def split: option.splits)
  ultimately show ?thesis by simp
qed

lemmas path_eval2 = path_Clean_def path_Dir_def path_Split_def path_IsAbs_def path_Join_def
  path_Base_def

theorem empty_diff_no_mutation_witness:
  "ReadBundleMeta_err (example_ext None
      [\<lparr>diff_Type = Same, diff_Path = ''etc/passwd'', Old_IsDir = False, New_IsDir = False\<rparr>]) = None \<and>
   Walk (From (bundle_meta example_world)) \<noteq> [] \<and>
   GenerateSquashfsLayer (example_ext None
      [\<lparr>diff_Type = Same, diff_Path = ''etc/passwd'', Old_IsDir = False, New_IsDir = False\<rparr>])
      ''layer'' ''author'' ''/b'' ''/oci'' example_world = Some (None, example_world) \<and>
   files example_world ''/b/sha256_aa.mtree'' = Some (RegularFile ''#mtree old'')"
proof -
  let ?x = "example_ext None
      [\<lparr>diff_Type = Same, diff_Path = ''etc/passwd'', Old_IsDir = False, New_IsDir = False\<rparr>]"
  have p: "path_Join [''/b'', strings_Replace (Digest (last (Walk
             (From (bundle_meta example_world))))) (CHR '':'') (CHR ''_'') 1 @ ''.mtree'']
           = ''/b/sha256_aa.mtree''"
    by (simp add: example_world_def path_eval2)
  have 1: "ReadBundleMeta_err ?x = None" by (simp add: example_ext_def)
  have w: "Walk (From (bundle_meta example_world)) \<noteq> []" by (simp add: example_world_def)
  have 2: "os_Open ?x (path_Join [''/b'', strings_Replace (Digest (last (Walk
             (From (bundle_meta example_world))))) (CHR '':'') (CHR ''_'') 1 @ ''.mtree''])
             example_world = Inr (RegularFile ''#mtree old'')"
    unfolding p by (simp add: os_Open_def example_world_def example_ext_def)
  have 3: "ParseSpec_err ?x = None" by (simp add: example_ext_def)
  have 4: "Walk_err ?x (path_Join [''/b'', ''rootfs'']) = None" by (simp add: example_ext_def)
  have 5: "CompareSame_res ?x =
      Inr [\<lparr>diff_Type = Same, diff_Path = ''etc/passwd'', Old_IsDir = False, New_IsDir = False\<rparr>]"
    by (simp add: example_ext_def)
  have 6: "\<forall>d\<in>set (FilterDeltas ?x
      [\<lparr>diff_Type = Same, diff_Path = ''etc/passwd'', Old_IsDir = False, New_IsDir = False\<rparr>]).
        diff_Type d = Same"
    by (simp add: example_ext_def)
  from empty_diff_no_mutation[OF 1 w 2 3 4 5 6, of "''layer''" "''author''" "''/oci''"]
  show ?thesis using 1 w unfolding p by simp
qed

section \<open>Paths below the rootfs\<close>

text \<open>\<^verbatim>\<open>path.Join\<close> of an absolute path and further elements is absolute and
  normalized; for a rootfs \<open>/r\<^sub>1/\<dots>/r\<^sub>n\<close> and a diff path \<open>b\<^sub>1/\<dots>/b\<^sub>m/d\<close> the
  host path is \<open>/r\<^sub>1/\<dots>/r\<^sub>n/b\<^sub>1/\<dots>/b\<^sub>m/d\<close> and the path of the \<^verbatim>\<open>.wh.\<close> file is
  \<open>/r\<^sub>1/\<dots>/r\<^sub>n/b\<^sub>1/\<dots>/b\<^sub>m/.wh.d\<close>.\<close>

lemma Clean_rooted_repr:
  assumes "q \<noteq> []" "hd q = CHR ''/''"
  shows "\<exists>cs. (\<forall>c\<in>set cs. good_elem c) \<and> path_Clean q = abs_path cs"
proof -
  let ?out = "rev (clean_elems True [] (strings_Split q (CHR ''/'')))"
  have "\<forall>c\<in>set (clean_elems True [] (strings_Split q (CHR ''/''))). good_elem c"
    by (rule clean_elems_rooted_good) (auto dest: Split_elems_no_sep)
  then have good: "\<forall>c\<in>set ?out. good_elem c" by simp
  have "path_Clean q = abs_path ?out"
    using assms by (simp add: path_Clean_def Join_abs_path)
  with good show ?thesis by blast
qed

lemma hd_Join_strings: "r \<noteq> [] \<Longrightarrow> hd (strings_Join (r # rest) sep) = hd r"
  by (cases rest) simp_all

lemma Join_strings_nonempty: "r \<noteq> [] \<Longrightarrow> strings_Join (r # rest) sep \<noteq> []"
  by (cases rest) simp_all

lemma Join_abs_clean:
  assumes "path_IsAbs r"
  shows "is_clean_abs (path_Join (r # rest))"
proof -
  from assms have r: "r \<noteq> []" "hd r = CHR ''/''" by (simp_all add: path_IsAbs_def)
  have j: "path_Join (r # rest) = path_Clean (strings_Join (r # rest) ''/'')"
    using r by (simp add: path_Join_def)
  from Clean_rooted_repr[of "strings_Join (r # rest) ''/''"] r
  obtain cs where "\<forall>c\<in>set cs. good_elem c" "path_Clean (strings_Join (r # rest) ''/'') = abs_path cs"
    by (auto simp: hd_Join_strings Join_strings_nonempty)
  then show ?thesis using abs_path_clean[of cs] j by simp
qed

lemma Split_append_sep:
  "strings_Split (a @ sep # b) sep = strings_Split a sep @ strings_Split b sep"
proof (induction a)
  case Nil
  then show ?case by simp
next
  case (Cons c a)
  obtain y ys where sp: "strings_Split a sep = y # ys"
    using Split_nonempty[of a sep] by (cases "strings_Split a sep") auto
  show ?case using Cons sp by simp
qed

lemma Join_snoc:
  "bs \<noteq> [] \<Longrightarrow> strings_Join (bs @ [d]) sep = strings_Join bs sep @ sep @ d"
  by (induction bs rule: induct_list012) auto

lemma Split_Join:
  "ds \<noteq> [] \<Longrightarrow> \<forall>c\<in>set ds. sep \<notin> set c \<Longrightarrow> strings_Split (strings_Join ds [sep]) sep = ds"
proof (induction ds rule: induct_list012)
  case 1
  then show ?case by simp
next
  case (2 x)
  then show ?case by (simp add: Split_single)
next
  case (3 x y zs)
  then show ?case by (simp add: Split_no_sep)
qed

lemma Clean_rooted_elems:
  "q \<noteq> [] \<Longrightarrow> hd q = CHR ''/'' \<Longrightarrow>
   path_Clean q = abs_path (rev (clean_elems True [] (strings_Split q (CHR ''/''))))"
  by (simp add: path_Clean_def Join_abs_path)

lemma clean_Split_abs_path:
  assumes "\<forall>c\<in>set rs. good_elem c"
  shows "clean_elems r out (strings_Split (abs_path rs) (CHR ''/'')) = rev rs @ out"
proof (cases "rs = []")
  case True
  then show ?thesis by (simp add: abs_path_def)
next
  case False
  have "strings_Split (abs_path rs) (CHR ''/'') = [] # rs"
    using Split_slashed[of "[]" rs] assms False by (simp add: abs_path_def good_elem_def)
  then show ?thesis using assms by (simp add: clean_elems_good)
qed

lemma Join_abs_path_elems:
  assumes rs: "\<forall>c\<in>set rs. good_elem c"
    and es: "\<forall>c\<in>set es. c = ''.'' \<or> good_elem c" "es \<noteq> []"
  shows "path_Clean (abs_path rs @ CHR ''/'' # strings_Join es ''/'') =
         abs_path (rs @ filter (\<lambda>c. c \<noteq> ''.'') es)"
proof -
  have ns: "\<forall>c\<in>set es. CHR ''/'' \<notin> set c"
  proof
    fix c assume "c \<in> set es"
    with es(1) have "c = ''.'' \<or> good_elem c" by blast
    then show "CHR ''/'' \<notin> set c"
    proof
      assume "c = ''.''"
      then show ?thesis by simp
    next
      assume "good_elem c"
      then show ?thesis by (simp add: good_elem_def)
    qed
  qed
  have sp: "strings_Split (abs_path rs @ CHR ''/'' # strings_Join es ''/'') (CHR ''/'') =
        strings_Split (abs_path rs) (CHR ''/'') @ es"
    using Split_Join[OF es(2) ns] by (simp add: Split_append_sep)
  have ce: "clean_elems True out es = rev (filter (\<lambda>c. c \<noteq> ''.'') es) @ out" for out
    using es(1)
  proof (induction es arbitrary: out)
    case Nil
    then show ?case by simp
  next
    case (Cons e es)
    have rest: "\<forall>c\<in>set es. c = ''.'' \<or> good_elem c" using Cons.prems by simp
    show ?case
    proof (cases "e = ''.''")
      case True
      then show ?thesis using Cons.IH[OF rest, of out] by simp
    next
      case False
      then have g: "e \<noteq> []" "e \<noteq> ''..''" using Cons.prems by (auto simp: good_elem_def)
      have "clean_elems True out (e # es) = clean_elems True (e # out) es"
        using False g by simp
      then show ?thesis using Cons.IH[OF rest, of "e # out"] False by simp
    qed
  qed
  have "path_Clean (abs_path rs @ CHR ''/'' # strings_Join es ''/'') =
        abs_path (rev (clean_elems True [] (strings_Split (abs_path rs) (CHR ''/'') @ es)))"
    using Clean_rooted_elems[of "abs_path rs @ CHR ''/'' # strings_Join es ''/''"] sp
    by simp
  then show ?thesis
    by (simp add: clean_elems_append clean_Split_abs_path[OF rs] ce)
qed

lemma path_Join2_abs:
  assumes "\<forall>c\<in>set rs. good_elem c" "\<forall>c\<in>set es. c = ''.'' \<or> good_elem c" "es \<noteq> []"
  shows "path_Join [abs_path rs, strings_Join es ''/''] =
         abs_path (rs @ filter (\<lambda>c. c \<noteq> ''.'') es)"
  using Join_abs_path_elems[OF assms] by (simp add: path_Join_def)

lemma good_Join_nonempty:
  "ds \<noteq> [] \<Longrightarrow> \<forall>c\<in>set ds. good_elem c \<Longrightarrow> strings_Join ds ''/'' \<noteq> []"
  by (induction ds rule: induct_list012) (auto simp: good_elem_def)

lemma Base_last_elem:
  assumes "d \<noteq> []" "CHR ''/'' \<notin> set d"
  shows "path_Base (pre @ CHR ''/'' # d) = d" and "path_Base d = d"
proof -
  have strip: "dropWhile (\<lambda>c. c = CHR ''/'') (rev d @ ys) = rev d @ ys" for ys
  proof (cases d rule: rev_cases)
    case Nil
    then show ?thesis using assms(1) by simp
  next
    case (snoc d' c)
    then have "c \<noteq> CHR ''/''" using assms(2) by auto
    then show ?thesis using snoc by simp
  qed
  have n: "CHR ''/'' \<notin> set (rev d)" using assms by simp
  have tw: "takeWhile (\<lambda>c. c \<noteq> CHR ''/'') (rev d) = rev d"
    using n by (auto simp: takeWhile_eq_all_conv)
  show "path_Base (pre @ CHR ''/'' # d) = d"
    using assms strip[of "CHR ''/'' # rev pre"] takeWhile_upto_sep[OF n, of "rev pre"]
    by (simp add: path_Base_def path_Split_def Let_def)
  have q: "dropWhile (\<lambda>c. c = CHR ''/'') (rev d) = rev d" using strip[of "[]"] by simp
  show "path_Base d = d"
    using assms(1) by (simp add: path_Base_def path_Split_def Let_def q tw)
qed

lemma rel_path_parts:
  assumes bs: "\<forall>c\<in>set bs. good_elem c" and d: "good_elem d"
  shows "path_Dir (strings_Join (bs @ [d]) ''/'') = (if bs = [] then ''.'' else strings_Join bs ''/'')"
    and "path_Base (strings_Join (bs @ [d]) ''/'') = d"
proof -
  have dn: "d \<noteq> []" "CHR ''/'' \<notin> set d" using d by (simp_all add: good_elem_def)
  show "path_Base (strings_Join (bs @ [d]) ''/'') = d"
  proof (cases "bs = []")
    case True
    then show ?thesis using Base_last_elem(2)[OF dn] by simp
  next
    case False
    then show ?thesis using Base_last_elem(1)[OF dn] by (simp add: Join_snoc)
  qed
  show "path_Dir (strings_Join (bs @ [d]) ''/'') = (if bs = [] then ''.'' else strings_Join bs ''/'')"
  proof (cases "bs = []")
    case True
    have n: "CHR ''/'' \<notin> set (rev d)" using dn by simp
    have "dropWhile (\<lambda>c. c \<noteq> CHR ''/'') (rev d) = []"
      using n by (auto simp: dropWhile_eq_Nil_conv)
    then show ?thesis using True by (simp add: path_Dir_def path_Split_def path_Clean_def)
  next
    case False
    let ?j = "strings_Join bs ''/''"
    have n: "CHR ''/'' \<notin> set (rev d)" using dn by simp
    have f: "fst (path_Split (strings_Join (bs @ [d]) ''/'')) = ?j @ ''/''"
      using False dropWhile_upto_sep[OF n, of "rev ?j"]
      by (simp add: Join_snoc path_Split_def)
    have bn: "\<forall>c\<in>set bs. CHR ''/'' \<notin> set c" using bs by (simp add: good_elem_def)
    have jn: "?j \<noteq> []" using False bs by (rule good_Join_nonempty)
    have hj: "hd ?j \<noteq> CHR ''/''"
    proof -
      obtain b bs' where b: "bs = b # bs'" using False by (cases bs) auto
      then have bne: "b \<noteq> []" "CHR ''/'' \<notin> set b" using bs by (simp_all add: good_elem_def)
      have "hd b \<in> set b" using bne(1) by (rule hd_in_set)
      then have "hd b \<noteq> CHR ''/''" using bne(2) by auto
      moreover have "hd ?j = hd b" using b bne(1) by (cases bs') simp_all
      ultimately show ?thesis by simp
    qed
    have sp: "strings_Split (?j @ ''/'') (CHR ''/'') = bs @ [[]]"
      using Split_Join[OF False bn] Split_append_sep[of ?j "CHR ''/''" "[]"] by simp
    have "path_Clean (?j @ ''/'') = ?j"
      using jn hj False bs
      by (simp add: path_Clean_def sp clean_elems_append clean_elems_good)
    then show ?thesis using False f by (simp add: path_Dir_def)
  qed
qed

lemma whiteout_path_abs:
  assumes rs: "\<forall>c\<in>set rs. good_elem c" and bs: "\<forall>c\<in>set bs. good_elem c" and d: "good_elem d"
  shows "path_Join [abs_path rs, strings_Join (bs @ [d]) ''/''] = abs_path (rs @ bs @ [d])"
    and "whiteout_path (abs_path rs) (strings_Join (bs @ [d]) ''/'') =
           abs_path (rs @ bs @ [''.wh.'' @ d])"
    and "path_Join [path_Dir (abs_path (rs @ bs @ [d])), ''.wh.'' @ path_Base (abs_path (rs @ bs @ [d]))]
           = abs_path (rs @ bs @ [''.wh.'' @ d])"
proof -
  have wh: "good_elem (''.wh.'' @ d)" using d by (auto simp: good_elem_def)
  have all: "\<forall>c\<in>set (bs @ [d]). c = ''.'' \<or> good_elem c" using bs d by auto
  have nd: "filter (\<lambda>c. c \<noteq> ''.'') (bs @ [d]) = bs @ [d]"
    using bs d by (auto simp: good_elem_def filter_id_conv)
  show "path_Join [abs_path rs, strings_Join (bs @ [d]) ''/''] = abs_path (rs @ bs @ [d])"
    using path_Join2_abs[OF rs all] nd by simp
  have dn: "d \<noteq> []" "CHR ''/'' \<notin> set d" using d by (simp_all add: good_elem_def)
  have base: "path_Base (abs_path (rs @ bs @ [d])) = d"
    using Base_last_elem(1)[OF dn, of "slashed (rs @ bs)"] by (simp add: abs_path_def)
  have rb: "\<forall>e\<in>set (rs @ bs). good_elem e" using rs bs by auto
  have dir: "path_Dir (abs_path (rs @ bs @ [d])) = abs_path (rs @ bs)"
    using Dir_abs_path_snoc[OF rb d] by simp
  have one: "\<forall>c\<in>set [''.wh.'' @ d]. c = ''.'' \<or> good_elem c" using wh by simp
  have "path_Join [abs_path (rs @ bs), strings_Join [''.wh.'' @ d] ''/''] =
        abs_path ((rs @ bs) @ filter (\<lambda>c. c \<noteq> ''.'') [''.wh.'' @ d])"
    using rs bs by (intro path_Join2_abs one) auto
  then show "path_Join [path_Dir (abs_path (rs @ bs @ [d])), ''.wh.'' @ path_Base (abs_path (rs @ bs @ [d]))]
           = abs_path (rs @ bs @ [''.wh.'' @ d])"
    by (simp add: base dir)
  let ?es = "(if bs = [] then [''.''] else bs) @ [''.wh.'' @ d]"
  have es: "\<forall>c\<in>set ?es. c = ''.'' \<or> good_elem c" using bs wh by auto
  have fe: "filter (\<lambda>c. c \<noteq> ''.'') ?es = bs @ [''.wh.'' @ d]"
    using bs wh by (auto simp: good_elem_def filter_id_conv)
  have j3: "strings_Join [abs_path rs, (if bs = [] then ''.'' else strings_Join bs ''/''), ''.wh.'' @ d] ''/''
        = abs_path rs @ CHR ''/'' # strings_Join ?es ''/''"
    by (simp add: Join_snoc)
  have "whiteout_path (abs_path rs) (strings_Join (bs @ [d]) ''/'') =
        path_Clean (abs_path rs @ CHR ''/'' # strings_Join ?es ''/'')"
    using rel_path_parts[OF bs d] j3
    by (simp add: whiteout_path_def path_Join_def Let_def)
  also have "\<dots> = abs_path (rs @ filter (\<lambda>c. c \<noteq> ''.'') ?es)"
    by (rule Join_abs_path_elems[OF rs es]) simp
  finally show "whiteout_path (abs_path rs) (strings_Join (bs @ [d]) ''/'') =
           abs_path (rs @ bs @ [''.wh.'' @ d])"
    using fe by simp
qed

section \<open>The loop over the diff\<close>

lemma AddInclude_clean_abs:
  assumes "is_clean_abs p"
  shows "\<exists>ex. remove_parents (exclude eps) (if \<not> isDir then path_Dir p else p) = Some ex \<and>
           AddInclude eps p isDir = Some \<lparr>exclude = ex, include_list = include_list eps @ [p]\<rparr>"
proof -
  from assms obtain cs where cs: "\<forall>c\<in>set cs. good_elem c" "p = abs_path cs"
    using clean_abs_repr by blast
  from AddInclude_abs_path[OF cs(1), of eps isDir] cs(2)
  show ?thesis by (auto simp: AddInclude_def split: option.splits)
qed

lemma AddInclude_include_list:
  "AddInclude eps p isDir = Some eps' \<Longrightarrow> include_list eps' = include_list eps @ [p]"
  by (auto simp: AddInclude_def split: option.splits)

lemmas sys_defs = unix_Mknod_def os_Create_def log_def

lemma make_whiteout_keeps:
  assumes "make_whiteout x r dp w = (res, w')"
  shows "(files w q = Some (CharDevice 0 0) \<longrightarrow> files w' q = Some (CharDevice 0 0)) \<and>
         (files w q \<noteq> None \<longrightarrow> files w' q \<noteq> None) \<and>
         bundle_meta w' = bundle_meta w \<and> blobs w' = blobs w \<and> dirs w' = dirs w"
  using assms
  by (auto simp: make_whiteout_def sys_defs Let_def
           split: option.splits if_splits prod.splits node.splits)

lemma diff_step_keeps:
  assumes "diff_step x r d st = Some (res, st')"
  shows "(files (lworld st) q = Some (CharDevice 0 0) \<longrightarrow> files (lworld st') q = Some (CharDevice 0 0)) \<and>
         (files (lworld st) q \<noteq> None \<longrightarrow> files (lworld st') q \<noteq> None) \<and>
         bundle_meta (lworld st') = bundle_meta (lworld st) \<and> blobs (lworld st') = blobs (lworld st) \<and>
         dirs (lworld st') = dirs (lworld st)"
proof (cases "diff_Type d")
  case Missing
  from assms Missing obtain eps w1 where
    mw: "make_whiteout x r (diff_Path d) (lworld st) = (res, w1)" and w: "lworld st' = w1"
    by (auto simp: diff_step_def Let_def split: option.splits prod.splits)
  from make_whiteout_keeps[OF mw, of q] w show ?thesis by simp
qed (use assms in \<open>auto simp: diff_step_def split: option.splits\<close>)

lemma diff_loop_keeps:
  assumes "diff_loop x r ds st = Some (res, st')"
  shows "(files (lworld st) q = Some (CharDevice 0 0) \<longrightarrow> files (lworld st') q = Some (CharDevice 0 0)) \<and>
         (files (lworld st) q \<noteq> None \<longrightarrow> files (lworld st') q \<noteq> None) \<and>
         bundle_meta (lworld st') = bundle_meta (lworld st) \<and> blobs (lworld st') = blobs (lworld st) \<and>
         dirs (lworld st') = dirs (lworld st)"
  using assms
proof (induction ds arbitrary: st)
  case Nil
  then show ?case by simp
next
  case (Cons d ds)
  from Cons.prems obtain r1 st1 where s: "diff_step x r d st = Some (r1, st1)"
    by (auto split: option.splits)
  show ?case
  proof (cases r1)
    case None
    with s Cons.prems have "diff_loop x r ds st1 = Some (res, st')" by simp
    from Cons.IH[OF this] diff_step_keeps[OF s, of q] show ?thesis by simp
  next
    case (Some e)
    with s Cons.prems have "st' = st1" by simp
    with diff_step_keeps[OF s, of q] show ?thesis by simp
  qed
qed

lemma make_whiteout_marks:
  assumes "make_whiteout x r dp w = (None, w')"
  shows "files w' (path_Join [r, dp]) = Some (CharDevice 0 0) \<or>
         files w' (whiteout_path r dp) \<noteq> None \<or>
         Mknod_err x (path_Join [r, dp]) = Some ENOENT \<or>
         Mknod_err x (path_Join [r, dp]) = Some ENOTDIR"
  using assms
  by (auto simp: make_whiteout_def sys_defs Let_def os_IsNotExist_def
           split: option.splits if_splits prod.splits node.splits)

lemma diff_step_Missing:
  assumes "diff_Type d = Missing" "path_IsAbs rootfsPath"
  shows "\<exists>eps. AddInclude (paths st) (path_Join [rootfsPath, diff_Path d]) (Old_IsDir d) = Some eps \<and>
           include_list eps = include_list (paths st) @ [path_Join [rootfsPath, diff_Path d]] \<and>
           diff_step x rootfsPath d st =
             Some (fst (make_whiteout x rootfsPath (diff_Path d) (lworld st)),
                   st\<lparr>lworld := snd (make_whiteout x rootfsPath (diff_Path d) (lworld st)),
                      missing := missing st @ [path_Join [rootfsPath, diff_Path d]],
                      needsLayer := True, paths := eps\<rparr>)"
proof -
  have "is_clean_abs (path_Join [rootfsPath, diff_Path d])"
    using assms(2) by (rule Join_abs_clean)
  from AddInclude_clean_abs[OF this, of "paths st" "Old_IsDir d"]
  obtain eps where a: "AddInclude (paths st) (path_Join [rootfsPath, diff_Path d]) (Old_IsDir d) = Some eps"
    and i: "include_list eps = include_list (paths st) @ [path_Join [rootfsPath, diff_Path d]]"
    by auto
  have "diff_step x rootfsPath d st =
             Some (fst (make_whiteout x rootfsPath (diff_Path d) (lworld st)),
                   st\<lparr>lworld := snd (make_whiteout x rootfsPath (diff_Path d) (lworld st)),
                      missing := missing st @ [path_Join [rootfsPath, diff_Path d]],
                      needsLayer := True, paths := eps\<rparr>)"
    using assms(1) a by (simp add: diff_step_def Let_def split: prod.splits)
  with a i show ?thesis by blast
qed

lemma make_whiteout_fallback:
  assumes "Mknod_err x (path_Join [r, dp]) = Some e" "\<not> os_IsNotExist e" "e \<noteq> ENOTDIR"
  shows "fst (make_whiteout x r dp w) =
           map_option (\<lambda>e'. Wrapf (Errno e') (''couldn't mknod whiteout for '' @ dp))
             (Create_err x (whiteout_path r dp))"
    and "trace (snd (make_whiteout x r dp w)) =
           trace w @ [EvMknod (path_Join [r, dp]), EvCreate (whiteout_path r dp)]"
    and "Create_err x (whiteout_path r dp) = None \<Longrightarrow>
           files (snd (make_whiteout x r dp w)) (whiteout_path r dp) =
             (case files w (whiteout_path r dp) of
                Some (CharDevice major minor) \<Rightarrow> Some (CharDevice major minor)
              | _ \<Rightarrow> Some (RegularFile []))"
  using assms
  by (auto simp: make_whiteout_def sys_defs Let_def split: option.splits node.splits)

lemmas layer_eval = GenerateSquashfsLayer_def write_layer_def diff_step_def make_whiteout_def
  whiteout_path_def ReadBundleMeta_def WriteBundleMeta_def AddBlobNoCompression_def
  GenerateBundleManifest_def DescriptorPath_Descriptor_def unix_Mknod_def os_Create_def
  os_IsNotExist_def os_IsPermission_def hosts_missing_def initial_state_def
  AddInclude_def AddExclude_def remove_parents.simps strings_HasPrefix_def Let_def

text \<open>
  Claim C9 (whiteout completeness), as the code has it. When the loop over
  the diff ends without an error, then for every \<^verbatim>\<open>Missing\<close> entry the host path
  is a character device 0/0, or the \<^verbatim>\<open>.wh.\<close> file for it exists, or \<^verbatim>\<open>Mknod\<close>
  failed on it with \<^verbatim>\<open>ENOENT\<close> or \<^verbatim>\<open>ENOTDIR\<close>, the two errors on which the code
  creates nothing.
\<close>

theorem whiteout_marker_or_skipped:
  assumes "diff_loop x rootfsPath ds st = Some (None, st')"
    and "d \<in> set ds" and "diff_Type d = Missing"
  shows "files (lworld st') (path_Join [rootfsPath, diff_Path d]) = Some (CharDevice 0 0) \<or>
         files (lworld st') (whiteout_path rootfsPath (diff_Path d)) \<noteq> None \<or>
         Mknod_err x (path_Join [rootfsPath, diff_Path d]) = Some ENOENT \<or>
         Mknod_err x (path_Join [rootfsPath, diff_Path d]) = Some ENOTDIR"
  using assms(1,2)
proof (induction ds arbitrary: st)
  case Nil
  then show ?case by simp
next
  case (Cons a ds)
  from Cons.prems(1) obtain st1 where s: "diff_step x rootfsPath a st = Some (None, st1)"
    and l: "diff_loop x rootfsPath ds st1 = Some (None, st')"
    by (auto split: option.splits)
  show ?case
  proof (cases "d = a")
    case True
    from s True assms(3) obtain eps w1 where
      mw: "make_whiteout x rootfsPath (diff_Path d) (lworld st) = (None, w1)" and w: "lworld st1 = w1"
      by (auto simp: diff_step_def Let_def split: option.splits prod.splits)
    from make_whiteout_marks[OF mw] w
      diff_loop_keeps[OF l, of "path_Join [rootfsPath, diff_Path d]"]
      diff_loop_keeps[OF l, of "whiteout_path rootfsPath (diff_Path d)"]
    show ?thesis by blast
  next
    case False
    with Cons.prems(2) have "d \<in> set ds" by simp
    from Cons.IH[OF l this] show ?thesis .
  qed
qed

theorem whiteout_marker_or_skipped_witness:
  "diff_loop (example_ext None [hosts_missing]) ''/b/rootfs'' [hosts_missing]
     (initial_state example_world) \<noteq> None \<and>
   fst (the (diff_loop (example_ext None [hosts_missing]) ''/b/rootfs'' [hosts_missing]
     (initial_state example_world))) = None \<and>
   diff_Type hosts_missing = Missing \<and>
   (files (lworld (snd (the (diff_loop (example_ext None [hosts_missing]) ''/b/rootfs''
       [hosts_missing] (initial_state example_world)))))
      (path_Join [''/b/rootfs'', diff_Path hosts_missing]) = Some (CharDevice 0 0) \<or>
    files (lworld (snd (the (diff_loop (example_ext None [hosts_missing]) ''/b/rootfs''
       [hosts_missing] (initial_state example_world)))))
      (whiteout_path ''/b/rootfs'' (diff_Path hosts_missing)) \<noteq> None \<or>
    Mknod_err (example_ext None [hosts_missing])
      (path_Join [''/b/rootfs'', diff_Path hosts_missing]) = Some ENOENT \<or>
    Mknod_err (example_ext None [hosts_missing])
      (path_Join [''/b/rootfs'', diff_Path hosts_missing]) = Some ENOTDIR)"
proof -
  let ?l = "diff_loop (example_ext None [hosts_missing]) ''/b/rootfs'' [hosts_missing]
     (initial_state example_world)"
  have r: "?l \<noteq> None \<and> fst (the ?l) = None"
    by (simp add: layer_eval world_eval path_eval2)
  then have l: "?l = Some (None, snd (the ?l))" by (cases ?l) auto
  have m: "diff_Type hosts_missing = Missing" by (simp add: hosts_missing_def)
  have i: "hosts_missing \<in> set [hosts_missing]" by simp
  from whiteout_marker_or_skipped[OF l i m] r m show ?thesis by blast
qed

text \<open>With \<^verbatim>\<open>ENOENT\<close> from \<^verbatim>\<open>Mknod\<close> the loop ends without an error and there is
  neither a device at the path nor a \<^verbatim>\<open>.wh.\<close> file.\<close>

theorem whiteout_completeness_counterexample:
  "diff_Type hosts_missing = Missing \<and>
   Mknod_err (example_ext (Some ENOENT) [hosts_missing]) ''/b/rootfs/etc/hosts'' = Some ENOENT \<and>
   diff_loop (example_ext (Some ENOENT) [hosts_missing]) ''/b/rootfs'' [hosts_missing]
     (initial_state example_world) \<noteq> None \<and>
   fst (the (diff_loop (example_ext (Some ENOENT) [hosts_missing]) ''/b/rootfs'' [hosts_missing]
     (initial_state example_world))) = None \<and>
   path_Join [''/b/rootfs'', diff_Path hosts_missing] = ''/b/rootfs/etc/hosts'' \<and>
   whiteout_path ''/b/rootfs'' (diff_Path hosts_missing) = ''/b/rootfs/etc/.wh.hosts'' \<and>
   files (lworld (snd (the (diff_loop (example_ext (Some ENOENT) [hosts_missing]) ''/b/rootfs''
     [hosts_missing] (initial_state example_world))))) ''/b/rootfs/etc/hosts'' = None \<and>
   files (lworld (snd (the (diff_loop (example_ext (Some ENOENT) [hosts_missing]) ''/b/rootfs''
     [hosts_missing] (initial_state example_world))))) ''/b/rootfs/etc/.wh.hosts'' = None"
  by (simp add: layer_eval world_eval path_eval2)

text \<open>
  Claim C2 (errors of \<^verbatim>\<open>Mknod\<close>), as the code has it. For a \<^verbatim>\<open>Missing\<close> entry
  on which \<^verbatim>\<open>Mknod\<close> fails with any error other than \<^verbatim>\<open>ENOENT\<close> and \<^verbatim>\<open>ENOTDIR\<close>,
  permission denied or not, the code calls \<^verbatim>\<open>os.Create\<close> on the \<^verbatim>\<open>.wh.\<close> path.
  The entry is fatal exactly when that call fails: the loop then stops with
  the wrapped error; otherwise the \<^verbatim>\<open>.wh.\<close> file exists and the loop goes on
  with the next entry.
\<close>

theorem mknod_error_falls_back_to_sidecar:
  assumes "diff_Type d = Missing" and "path_IsAbs rootfsPath"
    and "Mknod_err x (path_Join [rootfsPath, diff_Path d]) = Some e"
    and "\<not> os_IsNotExist e" and "e \<noteq> ENOTDIR"
  shows "\<exists>st1. diff_step x rootfsPath d st =
            Some (map_option (\<lambda>e'. Wrapf (Errno e') (''couldn't mknod whiteout for '' @ diff_Path d))
                    (Create_err x (whiteout_path rootfsPath (diff_Path d))), st1) \<and>
          trace (lworld st1) = trace (lworld st) @
            [EvMknod (path_Join [rootfsPath, diff_Path d]),
             EvCreate (whiteout_path rootfsPath (diff_Path d))] \<and>
          (Create_err x (whiteout_path rootfsPath (diff_Path d)) = None \<longrightarrow>
             files (lworld st1) (whiteout_path rootfsPath (diff_Path d)) \<noteq> None \<and>
             diff_loop x rootfsPath (d # ds) st = diff_loop x rootfsPath ds st1) \<and>
          (\<forall>e'. Create_err x (whiteout_path rootfsPath (diff_Path d)) = Some e' \<longrightarrow>
             diff_loop x rootfsPath (d # ds) st =
               Some (Some (Wrapf (Errno e') (''couldn't mknod whiteout for '' @ diff_Path d)), st1))"
proof -
  from diff_step_Missing[OF assms(1,2), of st x] obtain eps where
    step: "diff_step x rootfsPath d st =
             Some (fst (make_whiteout x rootfsPath (diff_Path d) (lworld st)),
                   st\<lparr>lworld := snd (make_whiteout x rootfsPath (diff_Path d) (lworld st)),
                      missing := missing st @ [path_Join [rootfsPath, diff_Path d]],
                      needsLayer := True, paths := eps\<rparr>)" by blast
  note fb = make_whiteout_fallback[OF assms(3,4,5), of "lworld st"]
  let ?st1 = "st\<lparr>lworld := snd (make_whiteout x rootfsPath (diff_Path d) (lworld st)),
                      missing := missing st @ [path_Join [rootfsPath, diff_Path d]],
                      needsLayer := True, paths := eps\<rparr>"
  have 1: "diff_step x rootfsPath d st =
            Some (map_option (\<lambda>e'. Wrapf (Errno e') (''couldn't mknod whiteout for '' @ diff_Path d))
                    (Create_err x (whiteout_path rootfsPath (diff_Path d))), ?st1)"
    using step fb(1) by simp
  have 2: "trace (lworld ?st1) = trace (lworld st) @
            [EvMknod (path_Join [rootfsPath, diff_Path d]),
             EvCreate (whiteout_path rootfsPath (diff_Path d))]"
    using fb(2) by simp
  have 3: "files (lworld ?st1) (whiteout_path rootfsPath (diff_Path d)) \<noteq> None \<and>
             diff_loop x rootfsPath (d # ds) st = diff_loop x rootfsPath ds ?st1"
    if c: "Create_err x (whiteout_path rootfsPath (diff_Path d)) = None"
    using fb(3)[OF c] 1 c by (simp split: option.splits node.splits)
  have 4: "diff_loop x rootfsPath (d # ds) st =
               Some (Some (Wrapf (Errno e') (''couldn't mknod whiteout for '' @ diff_Path d)), ?st1)"
    if c: "Create_err x (whiteout_path rootfsPath (diff_Path d)) = Some e'" for e'
    using 1 c by simp
  show ?thesis
  proof (intro exI[of _ ?st1] conjI impI allI)
    show "diff_step x rootfsPath d st =
            Some (map_option (\<lambda>e'. Wrapf (Errno e') (''couldn't mknod whiteout for '' @ diff_Path d))
                    (Create_err x (whiteout_path rootfsPath (diff_Path d))), ?st1)" by (rule 1)
    show "trace (lworld ?st1) = trace (lworld st) @
            [EvMknod (path_Join [rootfsPath, diff_Path d]),
             EvCreate (whiteout_path rootfsPath (diff_Path d))]" by (rule 2)
  next
    assume c: "Create_err x (whiteout_path rootfsPath (diff_Path d)) = None"
    from 3[OF c] show "files (lworld ?st1) (whiteout_path rootfsPath (diff_Path d)) \<noteq> None"
      and "diff_loop x rootfsPath (d # ds) st = diff_loop x rootfsPath ds ?st1"
      by blast+
  next
    fix e' assume "Create_err x (whiteout_path rootfsPath (diff_Path d)) = Some e'"
    then show "diff_loop x rootfsPath (d # ds) st =
               Some (Some (Wrapf (Errno e') (''couldn't mknod whiteout for '' @ diff_Path d)), ?st1)"
      by (rule 4)
  qed
qed

theorem mknod_error_falls_back_to_sidecar_witness:
  "diff_Type hosts_missing = Missing \<and> path_IsAbs ''/b/rootfs'' \<and>
   Mknod_err (example_ext (Some EEXIST) [hosts_missing]) ''/b/rootfs/etc/hosts'' = Some EEXIST \<and>
   \<not> os_IsNotExist EEXIST \<and> EEXIST \<noteq> ENOTDIR \<and>
   Create_err (example_ext (Some EEXIST) [hosts_missing]) ''/b/rootfs/etc/.wh.hosts'' = None \<and>
   (\<exists>st1. diff_step (example_ext (Some EEXIST) [hosts_missing]) ''/b/rootfs'' hosts_missing
             (initial_state example_world) = Some (None, st1) \<and>
          trace (lworld st1) = [EvMknod ''/b/rootfs/etc/hosts'', EvCreate ''/b/rootfs/etc/.wh.hosts''])"
proof -
  let ?x = "example_ext (Some EEXIST) [hosts_missing]"
  have p: "path_Join [''/b/rootfs'', diff_Path hosts_missing] = ''/b/rootfs/etc/hosts''"
    by (simp add: hosts_missing_def path_eval2)
  have wh: "whiteout_path ''/b/rootfs'' (diff_Path hosts_missing) = ''/b/rootfs/etc/.wh.hosts''"
    by (simp add: hosts_missing_def whiteout_path_def path_eval2)
  have 1: "diff_Type hosts_missing = Missing" by (simp add: hosts_missing_def)
  have 2: "path_IsAbs ''/b/rootfs''" by (simp add: path_IsAbs_def)
  have 3: "Mknod_err ?x (path_Join [''/b/rootfs'', diff_Path hosts_missing]) = Some EEXIST"
    by (simp add: example_ext_def)
  have 4: "\<not> os_IsNotExist EEXIST" by (simp add: os_IsNotExist_def)
  have 5: "EEXIST \<noteq> ENOTDIR" by simp
  have c: "Create_err ?x ''/b/rootfs/etc/.wh.hosts'' = None" by (simp add: example_ext_def)
  have t: "trace (lworld (initial_state example_world)) = []"
    by (simp add: initial_state_def example_world_def)
  from mknod_error_falls_back_to_sidecar[OF 1 2 3 4 5, of "initial_state example_world" "[]"]
  obtain st1 where "diff_step ?x ''/b/rootfs'' hosts_missing (initial_state example_world) =
      Some (map_option (\<lambda>e'. Wrapf (Errno e') (''couldn't mknod whiteout for '' @ diff_Path hosts_missing))
              (Create_err ?x (whiteout_path ''/b/rootfs'' (diff_Path hosts_missing))), st1)"
    and "trace (lworld st1) = trace (lworld (initial_state example_world)) @
            [EvMknod (path_Join [''/b/rootfs'', diff_Path hosts_missing]),
             EvCreate (whiteout_path ''/b/rootfs'' (diff_Path hosts_missing))]"
    by blast
  then have "diff_step ?x ''/b/rootfs'' hosts_missing (initial_state example_world) = Some (None, st1) \<and>
          trace (lworld st1) = [EvMknod ''/b/rootfs/etc/hosts'', EvCreate ''/b/rootfs/etc/.wh.hosts'']"
    unfolding p wh t using c by simp
  then show ?thesis using 1 2 3 4 5 c unfolding p by blast
qed

text \<open>\<^verbatim>\<open>EEXIST\<close> is neither a permission error nor \<^verbatim>\<open>ENOENT\<close> nor \<^verbatim>\<open>ENOTDIR\<close>;
  with it \<^verbatim>\<open>GenerateSquashfsLayer\<close> creates the \<^verbatim>\<open>.wh.\<close> file and returns nil.\<close>

theorem whiteout_fatal_counterexample:
  "Mknod_err (example_ext (Some EEXIST) [hosts_missing]) ''/b/rootfs/etc/hosts'' = Some EEXIST \<and>
   \<not> os_IsPermission EEXIST \<and> \<not> os_IsNotExist EEXIST \<and> EEXIST \<noteq> ENOTDIR \<and>
   GenerateSquashfsLayer (example_ext (Some EEXIST) [hosts_missing])
     ''layer'' ''author'' ''/b'' ''/oci'' example_world \<noteq> None \<and>
   fst (the (GenerateSquashfsLayer (example_ext (Some EEXIST) [hosts_missing])
     ''layer'' ''author'' ''/b'' ''/oci'' example_world)) = None \<and>
   EvCreate ''/b/rootfs/etc/.wh.hosts'' \<in> set (trace (snd (the (GenerateSquashfsLayer
     (example_ext (Some EEXIST) [hosts_missing]) ''layer'' ''author'' ''/b'' ''/oci'' example_world)))) \<and>
   files (snd (the (GenerateSquashfsLayer (example_ext (Some EEXIST) [hosts_missing])
     ''layer'' ''author'' ''/b'' ''/oci'' example_world))) ''/b/rootfs/etc/.wh.hosts''
     = Some (RegularFile [])"
  by (simp add: layer_eval world_eval path_eval2)

text \<open>
  Claim C8 (fallback on permission denied), as the code has it. For a
  \<^verbatim>\<open>Missing\<close> entry with diff path \<open>b\<^sub>1/\<dots>/b\<^sub>m/d\<close> under an absolute, normalized
  rootfs, when \<^verbatim>\<open>Mknod\<close> fails with a permission error and \<^verbatim>\<open>os.Create\<close>
  succeeds, the round of the loop ends without an error; the file is created
  at \<open>parent(p)/.wh.basename(p)\<close> for the host path \<open>p\<close>, and is an empty regular
  file unless a device node was there before; and the one path that the round
  appends to the include list is \<open>p\<close> itself (the call of \<^verbatim>\<open>AddInclude\<close> comes
  before \<^verbatim>\<open>Mknod\<close>), which is not the path of the \<^verbatim>\<open>.wh.\<close> file.
\<close>

theorem permission_denied_creates_sidecar:
  assumes "diff_Type d = Missing"
    and "\<forall>c\<in>set rs. good_elem c" and "\<forall>c\<in>set bs. good_elem c" and "good_elem b"
    and "rootfsPath = abs_path rs" and "diff_Path d = strings_Join (bs @ [b]) ''/''"
    and "Mknod_err x (path_Join [rootfsPath, diff_Path d]) = Some e" and "os_IsPermission e"
    and "Create_err x (whiteout_path rootfsPath (diff_Path d)) = None"
  shows "\<exists>st1. diff_step x rootfsPath d st = Some (None, st1) \<and>
           whiteout_path rootfsPath (diff_Path d) =
             path_Join [path_Dir (path_Join [rootfsPath, diff_Path d]),
                        ''.wh.'' @ path_Base (path_Join [rootfsPath, diff_Path d])] \<and>
           whiteout_path rootfsPath (diff_Path d) \<noteq> path_Join [rootfsPath, diff_Path d] \<and>
           files (lworld st1) (whiteout_path rootfsPath (diff_Path d)) =
             (case files (lworld st) (whiteout_path rootfsPath (diff_Path d)) of
                Some (CharDevice major minor) \<Rightarrow> Some (CharDevice major minor)
              | _ \<Rightarrow> Some (RegularFile [])) \<and>
           include_list (paths st1) =
             include_list (paths st) @ [path_Join [rootfsPath, diff_Path d]] \<and>
           missing st1 = missing st @ [path_Join [rootfsPath, diff_Path d]]"
proof -
  let ?p = "path_Join [rootfsPath, diff_Path d]"
  let ?wh = "whiteout_path rootfsPath (diff_Path d)"
  note wa = whiteout_path_abs[OF assms(2,3,4)]
  have p: "?p = abs_path (rs @ bs @ [b])" using wa(1) assms(5,6) by simp
  have wh: "?wh = abs_path (rs @ bs @ [''.wh.'' @ b])" using wa(2) assms(5,6) by simp
  have loc: "?wh = path_Join [path_Dir ?p, ''.wh.'' @ path_Base ?p]"
    unfolding p wh using wa(3) by simp
  have g1: "\<forall>c\<in>set (rs @ bs @ [b]). good_elem c" using assms(2,3,4) by auto
  have g2: "\<forall>c\<in>set (rs @ bs @ [''.wh.'' @ b]). good_elem c"
    using assms(2,3,4) by (auto simp: good_elem_def)
  have ne: "?wh \<noteq> ?p"
  proof
    assume "?wh = ?p"
    then have "abs_path (rs @ bs @ [''.wh.'' @ b]) = abs_path (rs @ bs @ [b])"
      using p wh by simp
    from abs_path_inj[OF g2 g1 this] show False by simp
  qed
  have abs: "path_IsAbs rootfsPath" using assms(5) by simp
  have e: "\<not> os_IsNotExist e" "e \<noteq> ENOTDIR"
    using assms(8) by (auto simp: os_IsPermission_def os_IsNotExist_def)
  from diff_step_Missing[OF assms(1) abs, of st x] obtain eps where
    inc: "include_list eps = include_list (paths st) @ [?p]" and
    step: "diff_step x rootfsPath d st =
             Some (fst (make_whiteout x rootfsPath (diff_Path d) (lworld st)),
                   st\<lparr>lworld := snd (make_whiteout x rootfsPath (diff_Path d) (lworld st)),
                      missing := missing st @ [?p], needsLayer := True, paths := eps\<rparr>)"
    by blast
  note fb = make_whiteout_fallback[OF assms(7) e, of "lworld st"]
  let ?st1 = "st\<lparr>lworld := snd (make_whiteout x rootfsPath (diff_Path d) (lworld st)),
                      missing := missing st @ [?p], needsLayer := True, paths := eps\<rparr>"
  have s1: "diff_step x rootfsPath d st = Some (None, ?st1)"
    using step fb(1) assms(9) by simp
  show ?thesis
  proof (intro exI[of _ ?st1] conjI)
    show "diff_step x rootfsPath d st = Some (None, ?st1)" by (rule s1)
    show "?wh = path_Join [path_Dir ?p, ''.wh.'' @ path_Base ?p]" by (rule loc)
    show "?wh \<noteq> ?p" by (rule ne)
    show "files (lworld ?st1) ?wh =
             (case files (lworld st) ?wh of
                Some (CharDevice major minor) \<Rightarrow> Some (CharDevice major minor)
              | _ \<Rightarrow> Some (RegularFile []))"
      using fb(3)[OF assms(9)] by simp
    show "include_list (paths ?st1) = include_list (paths st) @ [?p]" using inc by simp
    show "missing ?st1 = missing st @ [?p]" by simp
  qed
qed

theorem permission_denied_creates_sidecar_witness:
  "diff_Type hosts_missing = Missing \<and>
   good_elem ''b'' \<and> good_elem ''rootfs'' \<and> good_elem ''etc'' \<and> good_elem ''hosts'' \<and>
   ''/b/rootfs'' = abs_path [''b'', ''rootfs''] \<and>
   diff_Path hosts_missing = strings_Join ([''etc''] @ [''hosts'']) ''/'' \<and>
   Mknod_err (example_ext (Some EPERM) [hosts_missing]) ''/b/rootfs/etc/hosts'' = Some EPERM \<and>
   os_IsPermission EPERM \<and>
   Create_err (example_ext (Some EPERM) [hosts_missing]) ''/b/rootfs/etc/.wh.hosts'' = None \<and>
   (\<exists>st1. diff_step (example_ext (Some EPERM) [hosts_missing]) ''/b/rootfs'' hosts_missing
             (initial_state example_world) = Some (None, st1) \<and>
          files (lworld st1) ''/b/rootfs/etc/.wh.hosts'' = Some (RegularFile []) \<and>
          include_list (paths st1) = [''/b/rootfs/etc/hosts''] \<and>
          missing st1 = [''/b/rootfs/etc/hosts''])"
proof -
  let ?x = "example_ext (Some EPERM) [hosts_missing]"
  have p: "path_Join [''/b/rootfs'', diff_Path hosts_missing] = ''/b/rootfs/etc/hosts''"
    by (simp add: hosts_missing_def path_eval2)
  have wh: "whiteout_path ''/b/rootfs'' (diff_Path hosts_missing) = ''/b/rootfs/etc/.wh.hosts''"
    by (simp add: hosts_missing_def whiteout_path_def path_eval2)
  have 1: "diff_Type hosts_missing = Missing" by (simp add: hosts_missing_def)
  have 2: "\<forall>c\<in>set [''b'', ''rootfs'']. good_elem c" by (simp add: good_elem_def)
  have 3: "\<forall>c\<in>set [''etc'']. good_elem c" by (simp add: good_elem_def)
  have 4: "good_elem ''hosts''" by (simp add: good_elem_def)
  have 5: "''/b/rootfs'' = abs_path [''b'', ''rootfs'']" by (simp add: abs_path_def)
  have 6: "diff_Path hosts_missing = strings_Join ([''etc''] @ [''hosts'']) ''/''"
    by (simp add: hosts_missing_def)
  have 7: "Mknod_err ?x (path_Join [''/b/rootfs'', diff_Path hosts_missing]) = Some EPERM"
    by (simp add: example_ext_def)
  have 8: "os_IsPermission EPERM" by (simp add: os_IsPermission_def)
  have 9: "Create_err ?x (whiteout_path ''/b/rootfs'' (diff_Path hosts_missing)) = None"
    by (simp add: example_ext_def)
  have f: "files (lworld (initial_state example_world)) ''/b/rootfs/etc/.wh.hosts'' = None"
    "include_list (paths (initial_state example_world)) = []"
    "missing (initial_state example_world) = []"
    by (simp_all add: initial_state_def example_world_def NewExcludePaths_def)
  from permission_denied_creates_sidecar[OF 1 2 3 4 5 6 7 8 9, of "initial_state example_world"]
  have "\<exists>st1. diff_step ?x ''/b/rootfs'' hosts_missing (initial_state example_world) = Some (None, st1) \<and>
          files (lworld st1) ''/b/rootfs/etc/.wh.hosts'' = Some (RegularFile []) \<and>
          include_list (paths st1) = [''/b/rootfs/etc/hosts''] \<and>
          missing st1 = [''/b/rootfs/etc/hosts'']"
    unfolding p wh using f by auto
  moreover have "good_elem ''b'' \<and> good_elem ''rootfs'' \<and> good_elem ''etc''"
    using 2 3 by simp
  ultimately show ?thesis using 1 4 5 6 7 8 9 unfolding p wh by blast
qed

text \<open>After the round for \<open>etc/hosts\<close> the include list holds the host path of
  \<open>etc/hosts\<close> and not the path of the \<^verbatim>\<open>.wh.\<close> file.\<close>

theorem sidecar_include_counterexample:
  "Mknod_err (example_ext (Some EPERM) [hosts_missing]) ''/b/rootfs/etc/hosts'' = Some EPERM \<and>
   os_IsPermission EPERM \<and>
   diff_loop (example_ext (Some EPERM) [hosts_missing]) ''/b/rootfs'' [hosts_missing]
     (initial_state example_world) \<noteq> None \<and>
   fst (the (diff_loop (example_ext (Some EPERM) [hosts_missing]) ''/b/rootfs'' [hosts_missing]
     (initial_state example_world))) = None \<and>
   files (lworld (snd (the (diff_loop (example_ext (Some EPERM) [hosts_missing]) ''/b/rootfs''
     [hosts_missing] (initial_state example_world))))) ''/b/rootfs/etc/.wh.hosts''
     = Some (RegularFile []) \<and>
   include_list (paths (snd (the (diff_loop (example_ext (Some EPERM) [hosts_missing]) ''/b/rootfs''
     [hosts_missing] (initial_state example_world))))) = [''/b/rootfs/etc/hosts''] \<and>
   ''/b/rootfs/etc/.wh.hosts'' \<notin> set (include_list (paths (snd (the (diff_loop
     (example_ext (Some EPERM) [hosts_missing]) ''/b/rootfs''
     [hosts_missing] (initial_state example_world))))))"
  by (simp add: layer_eval world_eval path_eval2)

section \<open>The new layer\<close>

lemma build_image_keeps:
  "build_image x tempdir rootfs toExclude f w = (r, w') \<Longrightarrow>
   bundle_meta w' = bundle_meta w \<and> blobs w' = blobs w"
  by (auto simp: build_image_def io_defs Let_def
           split: sum.splits option.splits prod.splits node.splits if_splits)

lemma MakeSquashfs_keeps:
  assumes "MakeSquashfs x tempdir rootfs (Some eps) w = (r, w')"
  shows "bundle_meta w' = bundle_meta w \<and> blobs w' = blobs w"
proof -
  let ?text = "concat (map (\<lambda>p. p @ [CHR 0x0A]) (map_keys x (exclude eps))) @ [CHR 0x0A]"
  show ?thesis
  proof (cases "TempFile_res x tempdir ''stacker-squashfs-exclude-''")
    case (Inl e)
    then show ?thesis using assms by (auto simp: MakeSquashfs_unfold io_defs Let_def)
  next
    case (Inr f)
    show ?thesis
    proof (cases "WriteString_err x f")
      case (Some e)
      then show ?thesis using assms Inr by (auto simp: MakeSquashfs_unfold io_defs Let_def)
    next
      case None
      define w2 where "w2 = snd (File_WriteString x f ?text (snd (ioutil_TempFile x tempdir ''stacker-squashfs-exclude-'' w)))"
      have k2: "bundle_meta w2 = bundle_meta w \<and> blobs w2 = blobs w"
        using Inr None by (simp add: w2_def io_defs)
      obtain r3 w3 where b: "build_image x tempdir rootfs ?text f w2 = (r3, w3)"
        by (cases "build_image x tempdir rootfs ?text f w2") auto
      have "MakeSquashfs x tempdir rootfs (Some eps) w = (r3, os_Remove f w3)"
        using Inr None b
        by (simp add: MakeSquashfs_unfold w2_def ioutil_TempFile_def File_WriteString_def Let_def)
      with assms have "w' = os_Remove f w3" by simp
      then show ?thesis using build_image_keeps[OF b] k2 by (simp add: os_Remove_def log_def)
    qed
  qed
qed

lemma remove_missing_trace: "trace (remove_missing fs w) = trace w @ map EvRemove fs"
  by (induction fs arbitrary: w) (simp_all add: os_Remove_def log_def)

lemma remove_missing_keeps:
  "bundle_meta (remove_missing fs w) = bundle_meta w \<and> blobs (remove_missing fs w) = blobs w \<and>
   files (remove_missing fs w) q = (if q \<in> set fs then None else files w q)"
  by (induction fs arbitrary: w) (simp_all add: os_Remove_def log_def)

lemma write_layer_success:
  assumes "write_layer x name bundlepath ocidir rootfsPath mtreePath meta eps w = (None, w1)"
  shows "\<exists>desc blob. AddBlob_res x name blob = Inr desc \<and>
           blobs w1 = blobs w @ [(desc, blob)] \<and>
           bundle_meta w1 = meta\<lparr>From := \<lparr>Walk = [desc]\<rparr>\<rparr> \<and>
           EvGenerateBundleManifest
             (strings_Replace (Digest desc) (CHR '':'') (CHR ''_'') 1 @ ''.mtree'') bundlepath
             \<in> set (trace w1) \<and>
           (path_Join [bundlepath,
              (strings_Replace (Digest desc) (CHR '':'') (CHR ''_'') 1 @ ''.mtree'') @ ''.mtree'']
              \<noteq> mtreePath \<longrightarrow>
            files w1 (path_Join [bundlepath,
              (strings_Replace (Digest desc) (CHR '':'') (CHR ''_'') 1 @ ''.mtree'') @ ''.mtree''])
              = Some (RegularFile (manifest_text x))) \<and>
           (\<forall>q. q \<noteq> mtreePath \<longrightarrow>
              q \<noteq> path_Join [bundlepath,
                (strings_Replace (Digest desc) (CHR '':'') (CHR ''_'') 1 @ ''.mtree'') @ ''.mtree''] \<longrightarrow>
              files w1 q = files (snd (MakeSquashfs x ocidir rootfsPath (Some eps) w)) q)"
proof -
  obtain r0 w0 where m: "MakeSquashfs x ocidir rootfsPath (Some eps) w = (r0, w0)"
    by (cases "MakeSquashfs x ocidir rootfsPath (Some eps) w") auto
  from assms m obtain blob where r0: "r0 = Inr blob"
    by (cases r0) (auto simp: write_layer_def)
  from assms m r0 obtain desc where d: "AddBlob_res x name blob = Inr desc"
    by (cases "AddBlob_res x name blob")
       (auto simp: write_layer_def AddBlobNoCompression_def)
  let ?new = "strings_Replace (Digest desc) (CHR '':'') (CHR ''_'') 1 @ ''.mtree''"
  from assms m r0 d have g: "GenerateBundleManifest_err x ?new = None"
    by (cases "GenerateBundleManifest_err x ?new")
       (auto simp: write_layer_def AddBlobNoCompression_def GenerateBundleManifest_def Let_def)
  from assms m r0 d g have wm: "WriteBundleMeta_err x = None"
    by (cases "WriteBundleMeta_err x")
       (auto simp: write_layer_def AddBlobNoCompression_def GenerateBundleManifest_def
                   WriteBundleMeta_def Let_def)
  have w1: "w1 = (log (EvWriteBundleMeta bundlepath)
              (os_Remove mtreePath
                ((log (EvGenerateBundleManifest ?new bundlepath)
                   ((log (EvAddBlobNoCompression name blob) w0)\<lparr>blobs := blobs w0 @ [(desc, blob)]\<rparr>))
                 \<lparr>files := (files w0)(path_Join [bundlepath, ?new @ ''.mtree''] \<mapsto>
                              RegularFile (manifest_text x))\<rparr>)))
            \<lparr>bundle_meta := meta\<lparr>From := \<lparr>Walk = [desc]\<rparr>\<rparr>\<rparr>"
    using assms m r0 d g wm
    by (simp add: write_layer_def AddBlobNoCompression_def GenerateBundleManifest_def
                  WriteBundleMeta_def Let_def log_def)
  have k: "blobs w0 = blobs w" using MakeSquashfs_keeps[OF m] by simp
  show ?thesis
  proof (intro exI[of _ desc] exI[of _ blob] conjI impI allI)
    show "AddBlob_res x name blob = Inr desc" by (rule d)
    show "blobs w1 = blobs w @ [(desc, blob)]" using k by (simp add: w1 log_def os_Remove_def)
    show "bundle_meta w1 = meta\<lparr>From := \<lparr>Walk = [desc]\<rparr>\<rparr>" by (simp add: w1)
    show "EvGenerateBundleManifest ?new bundlepath \<in> set (trace w1)"
      by (simp add: w1 log_def os_Remove_def)
  next
    assume "path_Join [bundlepath, ?new @ ''.mtree''] \<noteq> mtreePath"
    then show "files w1 (path_Join [bundlepath, ?new @ ''.mtree'']) =
               Some (RegularFile (manifest_text x))"
      by (simp add: w1 log_def os_Remove_def)
  next
    fix q assume "q \<noteq> mtreePath" "q \<noteq> path_Join [bundlepath, ?new @ ''.mtree'']"
    then show "files w1 q = files (snd (MakeSquashfs x ocidir rootfsPath (Some eps) w)) q"
      by (simp add: w1 m log_def os_Remove_def)
  qed
qed

lemma diff_step_vars:
  assumes "diff_step x r d st = Some (None, st')"
  shows "needsLayer st' = (needsLayer st \<or> diff_Type d \<noteq> Same) \<and>
         missing st' = missing st @ (if diff_Type d = Missing then [path_Join [r, diff_Path d]] else [])"
  using assms
  by (cases "diff_Type d") (auto simp: diff_step_def Let_def split: option.splits prod.splits)

lemma diff_loop_vars:
  assumes "diff_loop x r ds st = Some (None, st')"
  shows "needsLayer st' = (needsLayer st \<or> (\<exists>d\<in>set ds. diff_Type d \<noteq> Same)) \<and>
         missing st' = missing st @
           map (\<lambda>d. path_Join [r, diff_Path d]) (filter (\<lambda>d. diff_Type d = Missing) ds)"
  using assms
proof (induction ds arbitrary: st)
  case Nil
  then show ?case by simp
next
  case (Cons d ds)
  from Cons.prems obtain st1 where s: "diff_step x r d st = Some (None, st1)"
    and l: "diff_loop x r ds st1 = Some (None, st')"
    by (auto split: option.splits)
  from Cons.IH[OF l] diff_step_vars[OF s] show ?case by auto
qed

lemma Replace_at_most_one:
  "length (filter (\<lambda>c. c = old) s) \<le> 1 \<Longrightarrow>
   strings_Replace s old new 1 = map (\<lambda>c. if c = old then new else c) s"
proof (induction s)
  case Nil
  then show ?case by simp
next
  case (Cons c s)
  show ?case
  proof (cases "c = old")
    case True
    with Cons.prems have "filter (\<lambda>c. c = old) s = []" by simp
    then have "map (\<lambda>c. if c = old then new else c) s = s"
      by (induction s) (auto split: if_splits)
    moreover have "strings_Replace s old new 0 = s" by (cases s) simp_all
    ultimately show ?thesis using True by simp
  next
    case False
    then show ?thesis using Cons by simp
  qed
qed

lemma layer_generation_effects:
  assumes "GenerateSquashfsLayer x name author bundlepath ocidir w = Some (None, w')"
    and "CompareSame_res x = Inr diffs"
    and "\<exists>d\<in>set (FilterDeltas x diffs). diff_Type d \<noteq> Same"
  shows "\<exists>desc blob.
           AddBlob_res x name blob = Inr desc \<and>
           blobs w' = blobs w @ [(desc, blob)] \<and>
           bundle_meta w' = (bundle_meta w)\<lparr>From := \<lparr>Walk = [desc]\<rparr>\<rparr> \<and>
           Walk (From (bundle_meta w')) = [desc] \<and>
           EvGenerateBundleManifest
             (strings_Replace (Digest desc) (CHR '':'') (CHR ''_'') 1 @ ''.mtree'') bundlepath
             \<in> set (trace w') \<and>
           (path_Join [bundlepath,
              (strings_Replace (Digest desc) (CHR '':'') (CHR ''_'') 1 @ ''.mtree'') @ ''.mtree'']
              \<noteq> path_Join [bundlepath,
                    strings_Replace (Digest (last (Walk (From (bundle_meta w)))))
                      (CHR '':'') (CHR ''_'') 1 @ ''.mtree''] \<and>
            path_Join [bundlepath,
              (strings_Replace (Digest desc) (CHR '':'') (CHR ''_'') 1 @ ''.mtree'') @ ''.mtree'']
              \<notin> set (map (\<lambda>d. path_Join [path_Join [bundlepath, ''rootfs''], diff_Path d])
                         (filter (\<lambda>d. diff_Type d = Missing) (FilterDeltas x diffs))) \<longrightarrow>
            files w' (path_Join [bundlepath,
              (strings_Replace (Digest desc) (CHR '':'') (CHR ''_'') 1 @ ''.mtree'') @ ''.mtree''])
              = Some (RegularFile (manifest_text x)))"
proof -
  let ?rootfs = "path_Join [bundlepath, ''rootfs'']"
  let ?old = "path_Join [bundlepath,
                    strings_Replace (Digest (last (Walk (From (bundle_meta w)))))
                      (CHR '':'') (CHR ''_'') 1 @ ''.mtree'']"
  let ?ds = "FilterDeltas x diffs"
  from assms(1) have rm: "ReadBundleMeta x bundlepath w = Inr (bundle_meta w)"
    by (auto simp: GenerateSquashfsLayer_def ReadBundleMeta_def split: option.splits)
  from assms(1) rm have dd: "DescriptorPath_Descriptor (From (bundle_meta w)) =
      Inr (last (Walk (From (bundle_meta w))))"
    by (auto simp: GenerateSquashfsLayer_def DescriptorPath_Descriptor_def split: if_splits)
  from assms(1) rm dd obtain mfh where op: "os_Open x ?old w = Inr mfh"
    by (cases "os_Open x ?old w") (auto simp: GenerateSquashfsLayer_def Let_def)
  from assms(1) rm dd op have ps: "ParseSpec_err x = None"
    by (cases "ParseSpec_err x") (auto simp: GenerateSquashfsLayer_def Let_def)
  from assms(1) rm dd op ps have wk: "Walk_err x ?rootfs = None"
    by (cases "Walk_err x ?rootfs") (auto simp: GenerateSquashfsLayer_def Let_def)
  have unfold: "GenerateSquashfsLayer x name author bundlepath ocidir w =
      (case diff_loop x ?rootfs ?ds (initial_state w) of
         None \<Rightarrow> None
       | Some (Some err, st) \<Rightarrow> Some (Some err, remove_missing (missing st) (lworld st))
       | Some (None, st) \<Rightarrow>
           if \<not> needsLayer st then Some (None, remove_missing (missing st) (lworld st))
           else (case write_layer x name bundlepath ocidir ?rootfs ?old (bundle_meta w)
                        (paths st) (lworld st) of
                   (r, w1) \<Rightarrow> Some (r, remove_missing (missing st) w1)))"
    using rm dd op ps wk assms(2) by (simp add: GenerateSquashfsLayer_def Let_def del: One_nat_def)
  from assms(1) obtain st where loop: "diff_loop x ?rootfs ?ds (initial_state w) = Some (None, st)"
    unfolding unfold by (auto split: option.splits prod.splits if_splits)
  from diff_loop_vars[OF loop] assms(3)
  have nl: "needsLayer st"
    and ms: "missing st = map (\<lambda>d. path_Join [?rootfs, diff_Path d])
                            (filter (\<lambda>d. diff_Type d = Missing) ?ds)"
    by (auto simp: initial_state_def)
  from diff_loop_keeps[OF loop, of "[]"]
  have kl: "bundle_meta (lworld st) = bundle_meta w" "blobs (lworld st) = blobs w"
    by (simp_all add: initial_state_def)
  obtain r w1 where wl: "write_layer x name bundlepath ocidir ?rootfs ?old (bundle_meta w)
                        (paths st) (lworld st) = (r, w1)"
    by (cases "write_layer x name bundlepath ocidir ?rootfs ?old (bundle_meta w)
                        (paths st) (lworld st)") auto
  from assms(1) loop nl wl have r: "r = None" and w': "w' = remove_missing (missing st) w1"
    unfolding unfold by simp_all
  from write_layer_success[OF wl[unfolded r]] obtain desc blob where
    d: "AddBlob_res x name blob = Inr desc"
    and b: "blobs w1 = blobs (lworld st) @ [(desc, blob)]"
    and m: "bundle_meta w1 = (bundle_meta w)\<lparr>From := \<lparr>Walk = [desc]\<rparr>\<rparr>"
    and t: "EvGenerateBundleManifest
             (strings_Replace (Digest desc) (CHR '':'') (CHR ''_'') 1 @ ''.mtree'') bundlepath
             \<in> set (trace w1)"
    and f: "path_Join [bundlepath,
              (strings_Replace (Digest desc) (CHR '':'') (CHR ''_'') 1 @ ''.mtree'') @ ''.mtree'']
              \<noteq> ?old \<longrightarrow>
            files w1 (path_Join [bundlepath,
              (strings_Replace (Digest desc) (CHR '':'') (CHR ''_'') 1 @ ''.mtree'') @ ''.mtree''])
              = Some (RegularFile (manifest_text x))"
    by blast
  note rk = remove_missing_keeps[of "missing st" w1]
  show ?thesis
  proof (intro exI[of _ desc] exI[of _ blob] conjI impI)
    show "AddBlob_res x name blob = Inr desc" by (rule d)
    show "blobs w' = blobs w @ [(desc, blob)]" using rk b kl(2) by (simp add: w')
    show "bundle_meta w' = (bundle_meta w)\<lparr>From := \<lparr>Walk = [desc]\<rparr>\<rparr>" using rk m by (simp add: w')
    then show "Walk (From (bundle_meta w')) = [desc]" by simp
    show "EvGenerateBundleManifest
             (strings_Replace (Digest desc) (CHR '':'') (CHR ''_'') 1 @ ''.mtree'') bundlepath
             \<in> set (trace w')"
      using t by (simp add: w' remove_missing_trace)
  next
    assume a: "path_Join [bundlepath,
              (strings_Replace (Digest desc) (CHR '':'') (CHR ''_'') 1 @ ''.mtree'') @ ''.mtree'']
              \<noteq> ?old \<and>
            path_Join [bundlepath,
              (strings_Replace (Digest desc) (CHR '':'') (CHR ''_'') 1 @ ''.mtree'') @ ''.mtree'']
              \<notin> set (map (\<lambda>d. path_Join [?rootfs, diff_Path d])
                         (filter (\<lambda>d. diff_Type d = Missing) ?ds))"
    then have "path_Join [bundlepath,
              (strings_Replace (Digest desc) (CHR '':'') (CHR ''_'') 1 @ ''.mtree'') @ ''.mtree'']
        \<notin> set (missing st)" unfolding ms by blast
    then show "files w' (path_Join [bundlepath,
              (strings_Replace (Digest desc) (CHR '':'') (CHR ''_'') 1 @ ''.mtree'') @ ''.mtree''])
              = Some (RegularFile (manifest_text x))"
      using rk f a unfolding w' by simp
  qed
qed

lemma missing_manifest_fails:
  assumes "ReadBundleMeta_err x = None" and "Walk (From (bundle_meta w)) \<noteq> []"
    and "files w (path_Join [bundlepath,
           strings_Replace (Digest (last (Walk (From (bundle_meta w)))))
             (CHR '':'') (CHR ''_'') 1 @ ''.mtree'']) = None"
  shows "GenerateSquashfsLayer x name author bundlepath ocidir w =
           Some (Some (Wrapf (Errno ENOENT) ''opening mtree''), w)"
  using assms
  by (simp add: GenerateSquashfsLayer_def ReadBundleMeta_def DescriptorPath_Descriptor_def
                os_Open_def Let_def)

text \<open>
  Claim C5 (descriptor round trip). The claim is what the code sets out to do,
  and its first half holds: after a successful layer generation \<^verbatim>\<open>From.Walk\<close> of
  the stored bundle meta is the one-element list of the descriptor that the
  content store returned. The second half fails. The code passes the digest
  with \<open>:\<close> replaced by \<open>_\<close> and with \<^verbatim>\<open>.mtree\<close> already appended as the name to
  \<^verbatim>\<open>GenerateBundleManifest\<close>, which appends \<^verbatim>\<open>.mtree\<close> itself. In the example
  bundle, with \<open>etc/hosts\<close> deleted and the new blob \<open>sha256:bb\<close>, the call
  returns nil and the bundle meta holds the new descriptor, but the manifest is
  at \<open>/b/sha256_bb.mtree.mtree\<close> and there is nothing at \<open>/b/sha256_bb.mtree\<close>,
  the name at which the next call looks for it: that call fails with
  \<^verbatim>\<open>opening mtree\<close>.
\<close>

theorem manifest_stored_with_doubled_suffix:
  "GenerateSquashfsLayer (example_ext None [hosts_missing]) ''layer'' ''author'' ''/b'' ''/oci''
     example_world \<noteq> None \<and>
   fst (the (GenerateSquashfsLayer (example_ext None [hosts_missing]) ''layer'' ''author'' ''/b''
     ''/oci'' example_world)) = None \<and>
   Walk (From (bundle_meta (snd (the (GenerateSquashfsLayer (example_ext None [hosts_missing])
     ''layer'' ''author'' ''/b'' ''/oci'' example_world))))) =
     [\<lparr>MediaType = ''application/vnd.oci.image.layer.squashfs'', Digest = ''sha256:bb'', Size = 4\<rparr>] \<and>
   files (snd (the (GenerateSquashfsLayer (example_ext None [hosts_missing]) ''layer'' ''author''
     ''/b'' ''/oci'' example_world))) ''/b/sha256_bb.mtree'' = None \<and>
   files (snd (the (GenerateSquashfsLayer (example_ext None [hosts_missing]) ''layer'' ''author''
     ''/b'' ''/oci'' example_world))) ''/b/sha256_bb.mtree.mtree''
     = Some (RegularFile ''#mtree new'') \<and>
   GenerateSquashfsLayer (example_ext None [hosts_missing]) ''layer'' ''author'' ''/b'' ''/oci''
     (snd (the (GenerateSquashfsLayer (example_ext None [hosts_missing]) ''layer'' ''author''
        ''/b'' ''/oci'' example_world))) =
     Some (Some (Wrapf (Errno ENOENT) ''opening mtree''),
           snd (the (GenerateSquashfsLayer (example_ext None [hosts_missing]) ''layer'' ''author''
             ''/b'' ''/oci'' example_world)))"
proof -
  let ?x = "example_ext None [hosts_missing]"
  let ?run = "GenerateSquashfsLayer ?x ''layer'' ''author'' ''/b'' ''/oci'' example_world"
  have r: "?run \<noteq> None \<and> fst (the ?run) = None \<and>
     Walk (From (bundle_meta (snd (the ?run)))) =
       [\<lparr>MediaType = ''application/vnd.oci.image.layer.squashfs'', Digest = ''sha256:bb'', Size = 4\<rparr>] \<and>
     files (snd (the ?run)) ''/b/sha256_bb.mtree'' = None \<and>
     files (snd (the ?run)) ''/b/sha256_bb.mtree.mtree'' = Some (RegularFile ''#mtree new'')"
    by (simp add: layer_eval world_eval path_eval2)
  have e: "ReadBundleMeta_err ?x = None" by (simp add: example_ext_def)
  have w: "Walk (From (bundle_meta (snd (the ?run)))) \<noteq> []" using r by simp
  have p: "path_Join [''/b'', strings_Replace (Digest (last (Walk (From (bundle_meta
              (snd (the ?run))))))) (CHR '':'') (CHR ''_'') 1 @ ''.mtree''] = ''/b/sha256_bb.mtree''"
    using r by (simp add: path_eval2)
  have f: "files (snd (the ?run)) (path_Join [''/b'', strings_Replace (Digest (last (Walk (From
              (bundle_meta (snd (the ?run))))))) (CHR '':'') (CHR ''_'') 1 @ ''.mtree'']) = None"
    unfolding p using r by simp
  from missing_manifest_fails[OF e w f, of "''layer''" "''author''" "''/oci''"] r
  show ?thesis by simp
qed

section \<open>ExtractSingleSquash\<close>

lemma first_executable_none:
  "\<forall>f\<in>set search. \<not> Access_X_OK x f \<Longrightarrow> first_executable x search = []"
  by (induction search) simp_all

lemma which_squashtool_none:
  assumes "\<forall>dir\<in>set (strings_Split (Getenv x ''PATH'') (CHR '':'')).
             \<not> Access_X_OK x (path_Join [dir, ''squashtool''])"
  shows "which x ''squashtool'' = []"
proof -
  have "which x ''squashtool'' =
        first_executable x (map (\<lambda>p. path_Join [p, ''squashtool''])
                              (strings_Split (Getenv x ''PATH'') (CHR '':'')))"
    by (simp add: which_def whichSearch_def)
  also have "\<dots> = []" using assms by (intro first_executable_none) auto
  finally show ?thesis .
qed

text \<open>
  Claim C3 (no \<^verbatim>\<open>squashtool\<close>), as the code has it. With the storage type
  \<^verbatim>\<open>btrfs\<close> and no executable \<^verbatim>\<open>squashtool\<close> in the directories of \<^verbatim>\<open>PATH\<close>, the
  call first runs \<^verbatim>\<open>os.MkdirAll\<close> on the extract directory. When that fails, its
  error is returned. When it succeeds, the call returns the error whose message
  names \<^verbatim>\<open>squashtool\<close> and \<^verbatim>\<open>https://github.com/anuvu/squashfs\<close>; no command is
  run, and the extract directory now exists.
\<close>

theorem squashtool_missing_is_hard_error:
  assumes "storageType = ''btrfs''"
    and "\<forall>dir\<in>set (strings_Split (Getenv x ''PATH'') (CHR '':'')).
           \<not> Access_X_OK x (path_Join [dir, ''squashtool''])"
  shows "ExtractSingleSquash x squashFile extractDir storageType w =
           (case MkdirAll_err x extractDir of
              Some e \<Rightarrow> (Some (Errno e), w\<lparr>trace := trace w @ [EvMkdirAll extractDir]\<rparr>)
            | None \<Rightarrow>
                (Some (Errorf squashtool_missing),
                 w\<lparr>trace := trace w @ [EvMkdirAll extractDir],
                   dirs := insert extractDir (dirs w)\<rparr>)) \<and>
         sublist ''squashtool'' squashtool_missing \<and>
         sublist ''https://github.com/anuvu/squashfs'' squashtool_missing"
proof (intro conjI)
  show "ExtractSingleSquash x squashFile extractDir storageType w =
           (case MkdirAll_err x extractDir of
              Some e \<Rightarrow> (Some (Errno e), w\<lparr>trace := trace w @ [EvMkdirAll extractDir]\<rparr>)
            | None \<Rightarrow>
                (Some (Errorf squashtool_missing),
                 w\<lparr>trace := trace w @ [EvMkdirAll extractDir],
                   dirs := insert extractDir (dirs w)\<rparr>))"
    using assms(1) which_squashtool_none[OF assms(2)]
    by (simp add: ExtractSingleSquash_def os_MkdirAll_def log_def split: option.splits)
  have "squashtool_missing = ''must have '' @ ''squashtool'' @
      '' (https://github.com/anuvu/squashfs) to correctly extract squashfs using btrfs storage backend''"
    by (simp add: squashtool_missing_def)
  then show "sublist ''squashtool'' squashtool_missing"
    unfolding sublist_def by blast
  have "squashtool_missing = ''must have squashtool ('' @ ''https://github.com/anuvu/squashfs'' @
      '') to correctly extract squashfs using btrfs storage backend''"
    by (simp add: squashtool_missing_def)
  then show "sublist ''https://github.com/anuvu/squashfs'' squashtool_missing"
    unfolding sublist_def by blast
qed

theorem squashtool_missing_is_hard_error_witness:
  "strings_Split (Getenv (example_ext None []) ''PATH'') (CHR '':'') = [''/usr/bin'', ''/bin''] \<and>
   \<not> Access_X_OK (example_ext None []) (path_Join [''/usr/bin'', ''squashtool'']) \<and>
   \<not> Access_X_OK (example_ext None []) (path_Join [''/bin'', ''squashtool'']) \<and>
   ExtractSingleSquash (example_ext None []) ''/oci/layer.squashfs'' ''/x'' ''btrfs'' example_world =
     (Some (Errorf squashtool_missing),
      example_world\<lparr>trace := [EvMkdirAll ''/x''], dirs := {''/x''}\<rparr>)"
proof -
  let ?x = "example_ext None []"
  have p: "strings_Split (Getenv ?x ''PATH'') (CHR '':'') = [''/usr/bin'', ''/bin'']"
    by (simp add: example_ext_def)
  have a: "\<forall>dir\<in>set (strings_Split (Getenv ?x ''PATH'') (CHR '':'')).
           \<not> Access_X_OK ?x (path_Join [dir, ''squashtool''])"
    by (simp add: example_ext_def)
  have m: "MkdirAll_err ?x ''/x'' = None" by (simp add: example_ext_def)
  have w: "trace example_world = []" "dirs example_world = {}" by (simp_all add: example_world_def)
  from squashtool_missing_is_hard_error[OF refl a, of "''/oci/layer.squashfs''" "''/x''" example_world]
  have "ExtractSingleSquash ?x ''/oci/layer.squashfs'' ''/x'' ''btrfs'' example_world =
     (Some (Errorf squashtool_missing),
      example_world\<lparr>trace := [EvMkdirAll ''/x''], dirs := {''/x''}\<rparr>)"
    using m w by simp
  moreover have "\<not> Access_X_OK ?x (path_Join [''/usr/bin'', ''squashtool'']) \<and>
     \<not> Access_X_OK ?x (path_Join [''/bin'', ''squashtool''])"
    by (simp add: example_ext_def)
  ultimately show ?thesis using p by blast
qed

text \<open>The extract directory \<open>/x\<close> did not exist before the call and does after it.\<close>

theorem extract_dir_created_counterexample:
  "which (example_ext None []) ''squashtool'' = [] \<and>
   ''/x'' \<notin> dirs example_world \<and>
   fst (ExtractSingleSquash (example_ext None []) ''/oci/layer.squashfs'' ''/x'' ''btrfs''
          example_world) = Some (Errorf squashtool_missing) \<and>
   ''/x'' \<in> dirs (snd (ExtractSingleSquash (example_ext None []) ''/oci/layer.squashfs'' ''/x''
          ''btrfs'' example_world)) \<and>
   trace (snd (ExtractSingleSquash (example_ext None []) ''/oci/layer.squashfs'' ''/x''
          ''btrfs'' example_world)) = [EvMkdirAll ''/x'']"
  by (simp add: ExtractSingleSquash_def os_MkdirAll_def log_def which_def whichSearch_def
        example_ext_def example_world_def path_eval2)

end
